theory Spec2Isabelle
  imports Main "HOL-Library.Word"
begin

unbundle bit_operations_syntax

section \<open>The wire cursor of \<^verbatim>\<open>pbf.hpp\<close>\<close>

text \<open>
  The cursor \<^verbatim>\<open>struct pbf\<close> holds two pointers into a byte buffer it does not own, the
  most recently decoded field key and the field number derived from it.  Pointers are
  modelled as addresses (natural numbers), so pointer arithmetic does not wrap: this is
  the situation on a target whose address space is wider than the 32-bit lengths the
  cursor adds to a pointer.  The buffer is an immutable memory, a total function from
  addresses to bytes; what lies outside \<^verbatim>\<open>[data, end)\<close> is whatever the memory holds there.

  Every member function is a function from the cursor before the call to a triple: what
  the call produces (\<open>Inl\<close> an exception or a failed assertion, \<open>Inr\<close> the returned
  value), the cursor as the call leaves it (exceptions included: the members mutate the
  cursor before they throw), and the addresses the call has read, in order.
\<close>

type_synonym byte = "8 word"
type_synonym mem = "nat \<Rightarrow> byte"

record pbf =
  data :: nat
  endp :: nat
  val :: "32 word"
  tag :: "32 word"

datatype error =
    UnterminatedVarint
  | VarintTooLong
  | UnknownFieldType
  | EndOfBuffer
  | AssertionFailure

type_synonym 'r result = "(error + 'r) \<times> pbf \<times> nat list"

text \<open>
  Two things the source leaves to the build and the target are parameters of the model.

  \<^item> \<open>chk\<close>: whether \<^verbatim>\<open>assert\<close> is compiled in (\<^verbatim>\<open>NDEBUG\<close> not defined).  A failed
    assertion aborts the program; the model reports it as \<open>AssertionFailure\<close> with the
    cursor as it stood.  With \<open>chk = False\<close> the assertion and the evaluation of its
    argument disappear.
  \<^item> \<open>wide\<close>: the value of \<^verbatim>\<open>x << n\<close> when \<open>n\<close> is not smaller than the width of the
    (promoted) left operand.  C++ leaves that shift undefined; the loop of \<^verbatim>\<open>varint<T>\<close>
    reaches it for a 32-bit \<^verbatim>\<open>T\<close> from the sixth group on.  x86-64 and AArch64 take the
    count of a 32-bit shift modulo 32 (\<open>shl_masked\<close>); \<open>shl_zero\<close> is the target on
    which the bits shifted out are simply lost.
\<close>

definition shl :: "('a::len word \<Rightarrow> nat \<Rightarrow> 'a word) \<Rightarrow> 'a word \<Rightarrow> nat \<Rightarrow> 'a word" where
  "shl wide x n = (if n < max 32 LENGTH('a) then push_bit n x else wide x n)"

definition shl_masked :: "'a::len word \<Rightarrow> nat \<Rightarrow> 'a word" where
  "shl_masked x n = push_bit (n mod max 32 LENGTH('a)) x"

definition shl_zero :: "'a::len word \<Rightarrow> nat \<Rightarrow> 'a word" where
  "shl_zero x n = 0"

text \<open>\<^verbatim>\<open>pbf(const char *data, size_t length)\<close>\<close>

definition new_pbf :: "nat \<Rightarrow> nat \<Rightarrow> pbf" where
  "new_pbf data' len = \<lparr>data = data', endp = data' + len, val = 0, tag = 0\<rparr>"

definition wire_type :: "pbf \<Rightarrow> int" where
  "wire_type c = uint (val c AND 0x7)"

definition is_wire_type :: "pbf \<Rightarrow> int \<Rightarrow> bool" where
  "is_wire_type c t = (wire_type c = t)"

text \<open>\<^verbatim>\<open>operator bool\<close>\<close>

definition has_more :: "pbf \<Rightarrow> bool" where
  "has_more c = (data c < endp c)"

text \<open>
  Sequencing of two calls: an exception of the first ends the computation, otherwise the
  second runs on the cursor the first left, and the reads are concatenated.
\<close>

definition seq :: "'a result \<Rightarrow> ('a \<Rightarrow> pbf \<Rightarrow> 'b result) \<Rightarrow> 'b result" where
  "seq r f =
     (case r of
        (Inl e, c, rd) \<Rightarrow> (Inl e, c, rd)
      | (Inr x, c, rd) \<Rightarrow> (case f x c of (y, c', rd') \<Rightarrow> (y, c', rd @ rd')))"

text \<open>
  The loop of \<^verbatim>\<open>varint<T>\<close>.  \<open>byte\<close>, \<open>result\<close> and \<open>bitpos\<close> are the locals of the
  source; \<open>rd\<close> collects the addresses read.  \<^verbatim>\<open>(T)(byte = *data) & 0x7F\<close> keeps the low
  seven bits of the byte whatever the signedness of \<^verbatim>\<open>char\<close>.  A left shift that
  overflows a signed \<^verbatim>\<open>T\<close> wraps (two's complement, as every mainstream compiler and
  C++20 have it).
\<close>

function varint_loop ::
  "('a::len word \<Rightarrow> nat \<Rightarrow> 'a word) \<Rightarrow> mem \<Rightarrow> pbf \<Rightarrow> byte \<Rightarrow> 'a word \<Rightarrow> nat \<Rightarrow> nat list
     \<Rightarrow> 'a word result" where
  "varint_loop wide m c byte result bitpos rd =
     (if bitpos < 70 \<and> byte AND 0x80 \<noteq> 0 then
        (if data c \<ge> endp c then (Inl UnterminatedVarint, c, rd)
         else varint_loop wide m (c\<lparr>data := data c + 1\<rparr>) (m (data c))
                (result OR shl wide (ucast (m (data c)) AND 0x7F) bitpos)
                (bitpos + 7) (rd @ [data c]))
      else if bitpos = 70 \<and> byte AND 0x80 \<noteq> 0 then (Inl VarintTooLong, c, rd)
      else (Inr result, c, rd))"
  by pat_completeness auto
termination
  by (relation "measure (\<lambda>(wide, m, c, byte, result, bitpos, rd). 70 - bitpos)") auto

definition varint :: "bool \<Rightarrow> ('a::len word \<Rightarrow> nat \<Rightarrow> 'a word) \<Rightarrow> mem \<Rightarrow> pbf \<Rightarrow> 'a word result" where
  "varint chk wide m c =
     (if chk \<and> \<not> (is_wire_type c 0 \<or> is_wire_type c 2) then (Inl AssertionFailure, c, [])
      else varint_loop wide m c 0x80 0 0 [])"

text \<open>
  \<^verbatim>\<open>svarint<T>\<close>: \<^verbatim>\<open>(n >> 1) ^ -(T)(n & 1)\<close>.  The shift is the one of the type \<^verbatim>\<open>T\<close>:
  logical for an unsigned \<^verbatim>\<open>T\<close>, arithmetic (sign-propagating) for a signed one, as C++20
  prescribes and the compilers in use did before it.
\<close>

datatype signedness = Signed | Unsigned

definition shr :: "signedness \<Rightarrow> 'a::len word \<Rightarrow> nat \<Rightarrow> 'a word" where
  "shr s x n = (case s of Signed \<Rightarrow> signed_drop_bit n x | Unsigned \<Rightarrow> drop_bit n x)"

definition svarint ::
  "signedness \<Rightarrow> bool \<Rightarrow> ('a::len word \<Rightarrow> nat \<Rightarrow> 'a word) \<Rightarrow> mem \<Rightarrow> pbf \<Rightarrow> 'a word result" where
  "svarint s chk wide m c =
     seq (varint chk wide m c) (\<lambda>n c'. (Inr (shr s n 1 XOR - (n AND 1)), c', []))"

text \<open>\<^verbatim>\<open>skipBytes(uint32_t bytes)\<close>\<close>

definition skipBytes :: "pbf \<Rightarrow> 32 word \<Rightarrow> unit result" where
  "skipBytes c bytes =
     (if data c + unat bytes > endp c then (Inl EndOfBuffer, c, [])
      else (Inr (), c\<lparr>data := data c + unat bytes\<rparr>, []))"

text \<open>
  \<^verbatim>\<open>fixed<T, bytes>\<close>: \<^verbatim>\<open>memcpy\<close> reads the \<open>bytes\<close> bytes below the advanced position;
  the value is their little-endian reading (the byte order of the targets, and of the
  wire format).  \<^verbatim>\<open>float32\<close> and \<^verbatim>\<open>float64\<close> return the bit pattern of the number.
\<close>

definition fixed :: "nat \<Rightarrow> bool \<Rightarrow> mem \<Rightarrow> pbf \<Rightarrow> 'a::len word result" where
  "fixed bytes chk m c =
     (if chk \<and> \<not> ((is_wire_type c 5 \<and> bytes = 4) \<or> (is_wire_type c 1 \<and> bytes = 8))
      then (Inl AssertionFailure, c, [])
      else seq (skipBytes c (of_nat bytes))
             (\<lambda>_ c'. (Inr (word_rcat (rev (map m [data c' - bytes..<data c']))), c',
                       [data c' - bytes..<data c'])))"

definition float32 :: "bool \<Rightarrow> mem \<Rightarrow> pbf \<Rightarrow> 32 word result" where
  "float32 chk m c =
     (if chk \<and> \<not> is_wire_type c 5 then (Inl AssertionFailure, c, []) else fixed 4 chk m c)"

definition float64 :: "bool \<Rightarrow> mem \<Rightarrow> pbf \<Rightarrow> 64 word result" where
  "float64 chk m c =
     (if chk \<and> \<not> is_wire_type c 1 then (Inl AssertionFailure, c, []) else fixed 8 chk m c)"

text \<open>\<^verbatim>\<open>string()\<close>: the copy made by \<^verbatim>\<open>std::string(pos, bytes)\<close> reads the payload.\<close>

definition string_field :: "bool \<Rightarrow> (32 word \<Rightarrow> nat \<Rightarrow> 32 word) \<Rightarrow> mem \<Rightarrow> pbf \<Rightarrow> byte list result" where
  "string_field chk wide m c =
     (if chk \<and> \<not> is_wire_type c 2 then (Inl AssertionFailure, c, [])
      else seq (varint chk wide m c)
             (\<lambda>bytes c1. let pos = data c1 in
                seq (skipBytes c1 bytes)
                  (\<lambda>_ c2. (Inr (map m [pos..<pos + unat bytes]), c2, [pos..<pos + unat bytes]))))"

text \<open>
  \<^verbatim>\<open>boolean()\<close>: the second assertion reads \<^verbatim>\<open>*data\<close> before \<^verbatim>\<open>skipBytes(1)\<close> has
  compared \<^verbatim>\<open>data\<close> with \<^verbatim>\<open>end\<close>.
\<close>

definition boolean :: "bool \<Rightarrow> mem \<Rightarrow> pbf \<Rightarrow> bool result" where
  "boolean chk m c =
     (if chk \<and> \<not> is_wire_type c 0 then (Inl AssertionFailure, c, [])
      else if chk \<and> m (data c) AND 0x80 \<noteq> 0 then (Inl AssertionFailure, c, [data c])
      else seq (Inr (), c, if chk then [data c] else [])
             (\<lambda>_ c0. seq (skipBytes c0 1)
                (\<lambda>_ c1. (Inr (m (data c1 - 1) \<noteq> 0), c1, [data c1 - 1]))))"

text \<open>\<^verbatim>\<open>message()\<close>: the sub-cursor is \<^verbatim>\<open>pbf(pos, bytes)\<close>; the payload is not read.\<close>

definition message :: "bool \<Rightarrow> (32 word \<Rightarrow> nat \<Rightarrow> 32 word) \<Rightarrow> mem \<Rightarrow> pbf \<Rightarrow> pbf result" where
  "message chk wide m c =
     (if chk \<and> \<not> is_wire_type c 2 then (Inl AssertionFailure, c, [])
      else seq (varint chk wide m c)
             (\<lambda>bytes c1. let pos = data c1 in
                seq (skipBytes c1 bytes) (\<lambda>_ c2. (Inr (new_pbf pos (unat bytes)), c2, []))))"

text \<open>
  \<^verbatim>\<open>skipValue(uint32_t val)\<close> switches on the low three bits of its argument; the
  \<^verbatim>\<open>varint()\<close> it calls asserts on the wire type of the cursor's own key.
\<close>

definition skipValue :: "bool \<Rightarrow> (32 word \<Rightarrow> nat \<Rightarrow> 32 word) \<Rightarrow> mem \<Rightarrow> pbf \<Rightarrow> 32 word \<Rightarrow> unit result" where
  "skipValue chk wide m c v =
     (let w = v AND 0x7 in
      if w = 0 then seq (varint chk wide m c) (\<lambda>(_ :: 32 word) c1. (Inr (), c1, []))
      else if w = 1 then skipBytes c 8
      else if w = 2 then seq (varint chk wide m c) (\<lambda>bytes c1. skipBytes c1 bytes)
      else if w = 5 then skipBytes c 4
      else (Inl UnknownFieldType, c, []))"

definition skip :: "bool \<Rightarrow> (32 word \<Rightarrow> nat \<Rightarrow> 32 word) \<Rightarrow> mem \<Rightarrow> pbf \<Rightarrow> unit result" where
  "skip chk wide m c = skipValue chk wide m c (val c)"

text \<open>\<^verbatim>\<open>next()\<close>: the key is decoded by \<^verbatim>\<open>varint<uint32_t>\<close>, assertion included.\<close>

definition next_field :: "bool \<Rightarrow> (32 word \<Rightarrow> nat \<Rightarrow> 32 word) \<Rightarrow> mem \<Rightarrow> pbf \<Rightarrow> bool result" where
  "next_field chk wide m c =
     (if data c < endp c then
        seq (varint chk wide m c) (\<lambda>v c1. (Inr True, c1\<lparr>val := v, tag := drop_bit 3 v\<rparr>, []))
      else (Inr False, c, []))"

section \<open>Bounds of the primitives\<close>

text \<open>
  What each primitive does to the cursor: \<open>end\<close>, the key and the tag stay, \<open>data\<close> only
  grows and stays below \<open>end\<close> when it was, and the reads are the addresses passed over.
  The filtered \<^verbatim>\<open>next(tag)\<close> needs these to terminate.
\<close>

declare varint_loop.simps [simp del]

lemma varint_loop_frame:
  "varint_loop wide m c byte result bitpos rd = (r, c', rd') \<Longrightarrow>
     data c \<le> data c' \<and> endp c' = endp c \<and> val c' = val c \<and> tag c' = tag c \<and>
     rd' = rd @ [data c..<data c'] \<and> (data c \<le> endp c \<longrightarrow> data c' \<le> endp c)"
proof (induction wide m c byte result bitpos rd rule: varint_loop.induct)
  case (1 wide m c byte result bitpos rd)
  show ?case
  proof (cases "bitpos < 70 \<and> byte AND 0x80 \<noteq> 0")
    case True
    note loop = True
    show ?thesis
    proof (cases "data c \<ge> endp c")
      case True
      with loop "1.prems" show ?thesis
        by (simp add: varint_loop.simps [of wide m c])
    next
      case False
      with loop "1.prems" have
        "varint_loop wide m (c\<lparr>data := data c + 1\<rparr>) (m (data c))
           (result OR shl wide (ucast (m (data c)) AND 0x7F) bitpos) (bitpos + 7) (rd @ [data c])
         = (r, c', rd')"
        by (simp add: varint_loop.simps [of wide m c])
      from "1.IH" [OF loop False this] False show ?thesis
        by (auto simp: upt_conv_Cons)
    qed
  next
    case False
    with "1.prems" show ?thesis
      by (auto simp: varint_loop.simps [of wide m c] split: if_splits)
  qed
qed


lemma varint_frame:
  assumes "varint chk wide m c = (r, c', rd)"
  shows "data c \<le> data c' \<and> endp c' = endp c \<and> val c' = val c \<and> tag c' = tag c \<and>
         rd = [data c..<data c'] \<and> (data c \<le> endp c \<longrightarrow> data c' \<le> endp c)"
proof (cases "chk \<and> \<not> (is_wire_type c 0 \<or> is_wire_type c 2)")
  case True
  with assms show ?thesis by (auto simp: varint_def)
next
  case False
  with assms have "varint_loop wide m c 0x80 0 0 [] = (r, c', rd)"
    by (auto simp: varint_def)
  from varint_loop_frame [OF this] show ?thesis by simp
qed

lemma varint_progress:
  assumes "varint chk wide m c = (Inr v, c', rd)"
  shows "data c < data c'"
proof -
  from assms have loop: "varint_loop wide m c 0x80 0 0 [] = (Inr v, c', rd)"
    by (auto simp: varint_def split: if_splits)
  then have "\<not> data c \<ge> endp c"
    by (auto simp: varint_loop.simps [of wide m c])
  with loop have
    "varint_loop wide m (c\<lparr>data := data c + 1\<rparr>) (m (data c))
       (0 OR shl wide (ucast (m (data c)) AND 0x7F) 0) (0 + 7) ([] @ [data c]) = (Inr v, c', rd)"
    by (simp add: varint_loop.simps [of wide m c])
  from varint_loop_frame [OF this] show ?thesis by simp
qed

lemma skipBytes_frame:
  assumes "skipBytes c n = (r, c', rd)"
  shows "data c \<le> data c' \<and> endp c' = endp c \<and> val c' = val c \<and> tag c' = tag c \<and>
         rd = [] \<and> (data c \<le> endp c \<longrightarrow> data c' \<le> endp c)"
  using assms by (auto simp: skipBytes_def split: if_splits)

lemma seq_cases:
  assumes "seq x f = (r, c', rd)"
  obtains (fail) e where "x = (Inl e, c', rd)" "r = Inl e"
        | (ok) y c1 rd1 rd2 where "x = (Inr y, c1, rd1)" "f y c1 = (r, c', rd2)" "rd = rd1 @ rd2"
proof (cases x)
  case (fields a c1 rd1)
  show ?thesis
  proof (cases a)
    case (Inl e)
    with fields assms that(1) show ?thesis by (simp add: seq_def)
  next
    case (Inr y)
    with fields assms that(2) show ?thesis
      by (auto simp: seq_def split: prod.splits)
  qed
qed

lemma skipValue_frame:
  assumes "skipValue chk wide m c v = (r, c', rd)"
  shows "data c \<le> data c' \<and> endp c' = endp c \<and> val c' = val c \<and> tag c' = tag c \<and>
         rd = [data c..<length rd + data c] \<and> length rd + data c \<le> data c' \<and> (data c \<le> endp c \<longrightarrow> data c' \<le> endp c)"
proof -
  consider (v0) "v AND 7 = 0" | (v1) "v AND 7 = 1" | (v2) "v AND 7 = 2" | (v5) "v AND 7 = 5"
    | (other) "v AND 7 \<noteq> 0" "v AND 7 \<noteq> 1" "v AND 7 \<noteq> 2" "v AND 7 \<noteq> 5"
    by blast
  then show ?thesis
  proof cases
    case v0
    with assms have "seq (varint chk wide m c) (\<lambda>(_ :: 32 word) c1. (Inr (), c1, [])) = (r, c', rd)"
      by (simp add: skipValue_def)
    then show ?thesis
      by (cases rule: seq_cases) (use varint_frame in \<open>fastforce\<close>)+
  next
    case v1
    with assms have "skipBytes c 8 = (r, c', rd)" by (simp add: skipValue_def)
    from skipBytes_frame [OF this] show ?thesis by simp
  next
    case v2
    with assms have "seq (varint chk wide m c) (\<lambda>bytes c1. skipBytes c1 bytes) = (r, c', rd)"
      by (simp add: skipValue_def)
    then show ?thesis
    proof (cases rule: seq_cases)
      case (fail e)
      from varint_frame [OF fail(1)] show ?thesis by simp
    next
      case (ok y c1 rd1 rd2)
      from varint_frame [OF ok(1)] skipBytes_frame [OF ok(2)] ok(3) show ?thesis by simp
    qed
  next
    case v5
    with assms have "skipBytes c 4 = (r, c', rd)" by (simp add: skipValue_def)
    from skipBytes_frame [OF this] show ?thesis by simp
  next
    case other
    with assms show ?thesis by (simp add: skipValue_def)
  qed
qed

lemma next_field_frame:
  assumes "next_field chk wide m c = (r, c', rd)"
  shows "data c \<le> data c' \<and> endp c' = endp c \<and> rd = [data c..<data c'] \<and>
         (data c \<le> endp c \<longrightarrow> data c' \<le> endp c) \<and>
         (r = Inr True \<longrightarrow> data c < data c' \<and> data c' \<le> endp c) \<and>
         (r = Inr False \<longrightarrow> c' = c \<and> \<not> data c < endp c)"
proof (cases "data c < endp c")
  case True
  with assms have
    "seq (varint chk wide m c) (\<lambda>v c1. (Inr True, c1\<lparr>val := v, tag := drop_bit 3 v\<rparr>, [])) = (r, c', rd)"
    by (simp add: next_field_def)
  then show ?thesis
  proof (cases rule: seq_cases)
    case (fail e)
    from varint_frame [OF fail(1)] fail(2) show ?thesis by simp
  next
    case (ok y c1 rd1 rd2)
    from varint_frame [OF ok(1)] varint_progress [OF ok(1)] ok(2,3) True show ?thesis by auto
  qed
next
  case False
  with assms show ?thesis by (auto simp: next_field_def)
qed


lemma next_skip_decreases:
  assumes "next_field chk wide m c = (Inr True, c1, rd1)"
    and "skip chk wide m c1 = (Inr u, c2, rd2)"
  shows "endp c2 - data c2 < endp c - data c"
proof -
  from next_field_frame [OF assms(1)]
  have 1: "data c < data c1" "data c1 \<le> endp c" "endp c1 = endp c"
    by simp_all
  from assms(2) have "skipValue chk wide m c1 (val c1) = (Inr u, c2, rd2)"
    by (simp add: skip_def)
  from skipValue_frame [OF this] 1
  have "data c1 \<le> data c2" "data c2 \<le> endp c" "endp c2 = endp c"
    by simp_all
  with 1 show ?thesis by simp
qed

section \<open>The filtered advance\<close>

text \<open>
  \<^verbatim>\<open>next(uint32_t requested_tag)\<close>: the \<^verbatim>\<open>while (next())\<close> loop.  Each round consumes at
  least the byte of the key, so \<open>end - data\<close> decreases.
\<close>

function next_tag ::
  "bool \<Rightarrow> (32 word \<Rightarrow> nat \<Rightarrow> 32 word) \<Rightarrow> mem \<Rightarrow> pbf \<Rightarrow> 32 word \<Rightarrow> bool result" where
  "next_tag chk wide m c requested_tag =
     (case next_field chk wide m c of
        (Inl e, c1, rd1) \<Rightarrow> (Inl e, c1, rd1)
      | (Inr False, c1, rd1) \<Rightarrow> (Inr False, c1, rd1)
      | (Inr True, c1, rd1) \<Rightarrow>
          if tag c1 = requested_tag then (Inr True, c1, rd1)
          else (case skip chk wide m c1 of
                  (Inl e, c2, rd2) \<Rightarrow> (Inl e, c2, rd1 @ rd2)
                | (Inr u, c2, rd2) \<Rightarrow>
                    (case next_tag chk wide m c2 requested_tag of
                       (r, c3, rd3) \<Rightarrow> (r, c3, rd1 @ rd2 @ rd3))))"
  by pat_completeness auto
termination
proof (relation "measure (\<lambda>(chk, wide, m, c, requested_tag). endp c - data c)")
  show "wf (measure (\<lambda>(chk, wide, m, c, requested_tag). endp c - data c))"
    by simp
next
  fix chk wide m c and requested_tag :: "32 word" and x y b c1 ya xb yb and u :: unit and c2 yc
  assume "(x, y) = next_field chk wide m c" "x = Inr b" "b = True" "(c1, ya) = y"
    and "(xb, yb) = skip chk wide m c1" "xb = Inr u" "(c2, yc) = yb"
  then have "next_field chk wide m c = (Inr True, c1, ya)" "skip chk wide m c1 = (Inr u, c2, yc)"
    by (auto dest: sym)
  from next_skip_decreases [OF this]
  show "((chk, wide, m, c2, requested_tag), chk, wide, m, c, requested_tag)
      \<in> measure (\<lambda>(chk, wide, m, c, requested_tag). endp c - data c)"
    by simp
qed

declare next_tag.simps [simp del]

section \<open>The encodings the decoder is checked against\<close>

text \<open>
  Modelled from the spec: the write path (the encoder) is outside the repository.  The
  specification fixes the wire format: a varint is little-endian base 128, seven bits a
  byte, the high bit set on every byte but the last; ZigZag maps a signed value \<open>v\<close> of
  width \<open>w\<close> to \<^verbatim>\<open>(v << 1) ^ (v >> (w - 1))\<close> with an arithmetic right shift, the inverse of
  the decoding formula \<^verbatim>\<open>(n >> 1) ^ -(n & 1)\<close> on unsigned \<open>n\<close>.
\<close>

definition zigzag :: "'a::len word \<Rightarrow> 'a word" where
  "zigzag v = push_bit 1 v XOR signed_drop_bit (LENGTH('a) - 1) v"

fun encode_varint :: "nat \<Rightarrow> byte list" where
  "encode_varint n =
     (if n < 128 then [of_nat n] else (of_nat (n mod 128) OR 0x80) # encode_varint (n div 128))"

declare encode_varint.simps [simp del]

text \<open>
  Modelled from the spec: the value a sequence of varint bytes stands for, each byte
  contributing its low seven bits, least significant group first.
\<close>

fun varint_value :: "byte list \<Rightarrow> nat" where
  "varint_value [] = 0"
| "varint_value (b # bs) = unat (b AND 0x7F) + 128 * varint_value bs"

text \<open>
  Modelled from the spec: a well-formed varint is one to ten bytes, the continuation bit
  set on every byte but the last.
\<close>

definition well_formed_varint :: "byte list \<Rightarrow> bool" where
  "well_formed_varint bs =
     (bs \<noteq> [] \<and> length bs \<le> 10 \<and> list_all (\<lambda>b. b AND 0x80 \<noteq> 0) (butlast bs) \<and>
      last bs AND 0x80 = 0)"

section \<open>The filtered advance of the specification\<close>

text \<open>
  The filtered advance in the words of the specification, on the bytes that remain in
  the buffer, to compare \<open>next_tag\<close> with.

  \<open>spec_varint_len k bs\<close> is the number of bytes of the varint that starts \<open>bs\<close>, when \<open>k\<close>
  groups came before: the bytes up to and including the first with the high bit clear.
  It is \<open>UnterminatedVarint\<close> when the bytes end before one, and \<open>VarintTooLong\<close> when
  the tenth group still has its continuation bit.
\<close>

fun spec_varint_len :: "nat \<Rightarrow> byte list \<Rightarrow> error + nat" where
  "spec_varint_len k [] = Inl UnterminatedVarint"
| "spec_varint_len k (b # bs) =
     (if b AND 0x80 = 0 then Inr 1
      else if k = 9 then Inl VarintTooLong
      else (case spec_varint_len (Suc k) bs of Inl e \<Rightarrow> Inl e | Inr n \<Rightarrow> Inr (Suc n)))"

text \<open>
  Skipping the value of a field with the key \<open>key\<close>: the wire type is the low three bits
  of the key.  Wire type 0 discards one varint, 1 discards 8 bytes, 2 decodes a length
  and discards that many bytes, 5 discards 4 bytes, any other is \<open>UnknownFieldType\<close>;
  it is \<open>EndOfBuffer\<close> when fewer bytes remain than are to be discarded.  The result is
  the number of bytes discarded and, beside it, the number of bytes of the length that
  was decoded (0 when there was none).
\<close>

definition spec_skip :: "32 word \<Rightarrow> byte list \<Rightarrow> (error + nat) \<times> nat" where
  "spec_skip key bs =
     (let wt = unat key mod 8 in
      if wt = 0 then
        (case spec_varint_len 0 bs of Inl e \<Rightarrow> (Inl e, 0) | Inr n \<Rightarrow> (Inr n, 0))
      else if wt = 1 then (if length bs < 8 then (Inl EndOfBuffer, 0) else (Inr 8, 0))
      else if wt = 2 then
        (case spec_varint_len 0 bs of
           Inl e \<Rightarrow> (Inl e, 0)
         | Inr n \<Rightarrow>
             let l = unat (of_nat (varint_value (take n bs)) :: 32 word) in
             if length bs < n + l then (Inl EndOfBuffer, n) else (Inr (n + l), n))
      else if wt = 5 then (if length bs < 4 then (Inl EndOfBuffer, 0) else (Inr 4, 0))
      else (Inl UnknownFieldType, 0))"

text \<open>
  The filtered advance: no more fields when no byte remains; otherwise one varint is the
  key, the tag is the key shifted right by three bits; on the target tag the advance
  stops, positioned on the bytes of the value; on another tag the value is skipped and
  the advance goes on.  A failure ends it.  Beside the result stands the number of bytes
  of the longest key or length that was decoded on the way: keys and lengths are decoded
  into 32 bits, and one of more than five bytes meets the oversized shift of C5.
\<close>

datatype advance = NoMoreFields | Positioned "32 word" "byte list"

lemma spec_varint_len_Inr:
  assumes "spec_varint_len k bs = Inr n"
  shows "1 \<le> n \<and> n \<le> length bs \<and> (k \<le> 9 \<longrightarrow> k + n \<le> 10) \<and>
         list_all (\<lambda>b. b AND 0x80 \<noteq> 0) (take (n - 1) bs) \<and> bs ! (n - 1) AND 0x80 = 0"
  using assms
proof (induction bs arbitrary: k n)
  case Nil
  then show ?case by simp
next
  case (Cons b bs)
  show ?case
  proof (cases "b AND 0x80 = 0")
    case True
    with Cons.prems show ?thesis by auto
  next
    case False
    with Cons.prems obtain n' where n': "spec_varint_len (Suc k) bs = Inr n'" "n = Suc n'" "k \<noteq> 9"
      by (auto split: if_splits sum.splits)
    from Cons.IH [OF n'(1)] n'(2,3) False show ?thesis
      by (cases n') auto
  qed
qed

lemma spec_varint_len_Inl:
  assumes "spec_varint_len k bs = Inl e" and "k \<le> 9"
  shows "(e = UnterminatedVarint \<and> list_all (\<lambda>b. b AND 0x80 \<noteq> 0) bs \<and> k + length bs < 10) \<or>
         (e = VarintTooLong \<and> 10 - k \<le> length bs \<and>
          list_all (\<lambda>b. b AND 0x80 \<noteq> 0) (take (10 - k) bs))"
  using assms
proof (induction bs arbitrary: k)
  case Nil
  then show ?case by simp
next
  case (Cons b bs)
  show ?case
  proof (cases "k = 9")
    case True
    with Cons.prems show ?thesis
      by (auto split: if_splits)
  next
    case False
    with Cons.prems have b: "b AND 0x80 \<noteq> 0" and rec: "spec_varint_len (Suc k) bs = Inl e"
      and k: "Suc k \<le> 9"
      by (auto split: if_splits sum.splits)
    from Cons.IH [OF rec k] b k show ?thesis
      by (auto simp: Suc_diff_le take_Cons')
  qed
qed

function spec_next_tag :: "32 word \<Rightarrow> byte list \<Rightarrow> (error + advance) \<times> nat" where
  "spec_next_tag t bs =
     (if bs = [] then (Inr NoMoreFields, 0)
      else case spec_varint_len 0 bs of
             Inl e \<Rightarrow> (Inl e, 0)
           | Inr n \<Rightarrow>
               let key = of_nat (varint_value (take n bs)) :: 32 word; rest = drop n bs in
               if drop_bit 3 key = t then (Inr (Positioned key rest), n)
               else (case spec_skip key rest of
                       (Inl e, w) \<Rightarrow> (Inl e, max n w)
                     | (Inr k, w) \<Rightarrow>
                         (case spec_next_tag t (drop k rest) of
                            (r, w') \<Rightarrow> (r, max n (max w w')))))"
  by pat_completeness auto
termination
proof (relation "measure (\<lambda>(t, bs). length bs)")
  show "wf (measure (\<lambda>(t :: 32 word, bs :: byte list). length bs))"
    by simp
next
  fix t :: "32 word" and bs rest :: "byte list" and n k :: nat
  assume "bs \<noteq> []" and "spec_varint_len 0 bs = Inr n" and "rest = drop n bs"
  from spec_varint_len_Inr [OF this(2)] this(1,3) have "length (drop k rest) < length bs"
    by (cases bs) auto
  then show "((t, drop k rest), t, bs) \<in> measure (\<lambda>(t, bs). length bs)"
    by simp
qed

declare spec_next_tag.simps [simp del]

section \<open>Test buffers\<close>

text \<open>The memory that holds the bytes \<open>bs\<close> from address 0 on, and zeros above.\<close>

definition mem_of :: "byte list \<Rightarrow> mem" where
  "mem_of bs a = (if a < length bs then bs ! a else 0)"

section \<open>Staying inside the buffer\<close>

text \<open>
  A call stays within the buffer of the cursor \<open>c\<close> it starts from when it leaves the read
  position between where it was and \<open>end\<close>, leaves \<open>end\<close> alone, and has read only
  addresses of \<^verbatim>\<open>[data, end)\<close>.
\<close>

definition within :: "pbf \<Rightarrow> 'r result \<Rightarrow> bool" where
  "within c res =
     (case res of (r, c', rd) \<Rightarrow>
        data c \<le> data c' \<and> data c' \<le> endp c' \<and> endp c' = endp c \<and>
        set rd \<subseteq> {data c..<endp c})"

section \<open>Claims\<close>

subsection \<open>Unterminated varints\<close>

lemma varint_loop_unterminated:
  assumes "\<forall>a. data c \<le> a \<and> a < endp c \<longrightarrow> m a AND 0x80 \<noteq> 0"
    and "byte AND 0x80 \<noteq> 0" and "data c \<le> endp c" and "bitpos + 7 * (endp c - data c) < 70"
  shows "varint_loop wide m c byte result bitpos rd
           = (Inl UnterminatedVarint, c\<lparr>data := endp c\<rparr>, rd @ [data c..<endp c])"
  using assms
proof (induction wide m c byte result bitpos rd rule: varint_loop.induct)
  case (1 wide m c byte result bitpos rd)
  from "1.prems" have loop: "bitpos < 70 \<and> byte AND 0x80 \<noteq> 0" by simp
  show ?case
  proof (cases "data c \<ge> endp c")
    case True
    with loop "1.prems" show ?thesis
      by (simp add: varint_loop.simps [of wide m c])
  next
    case False
    let ?c = "c\<lparr>data := data c + 1\<rparr>"
    have "varint_loop wide m ?c (m (data c))
            (result OR shl wide (ucast (m (data c)) AND 0x7F) bitpos) (bitpos + 7) (rd @ [data c])
          = (Inl UnterminatedVarint, ?c\<lparr>data := endp ?c\<rparr>, (rd @ [data c]) @ [data ?c..<endp ?c])"
      using "1.prems" False by (intro "1.IH" [OF loop False]) auto
    with loop False show ?thesis
      by (simp add: varint_loop.simps [of wide m c] upt_conv_Cons)
  qed
qed

text \<open>
  Claim C3 (as stated it fails).  A buffer of ten bytes, every one with the continuation
  bit set: it ends before any terminating byte and its last byte has the high bit set,
  yet \<open>varint\<close> fails with \<open>VarintTooLong\<close>, not with \<open>UnterminatedVarint\<close>.
\<close>

theorem varint_ten_continuation_bytes_then_end:
  "endp (new_pbf 0 10) = 10 \<and>
   list_all (\<lambda>b. b AND 0x80 \<noteq> 0) [0xFF, 0xFF, 0xFF, 0xFF, 0xFF, 0xFF, 0xFF, 0xFF, 0xFF, 0xFF :: byte] \<and>
   varint True (shl_masked :: 32 word \<Rightarrow> nat \<Rightarrow> 32 word)
       (mem_of [0xFF, 0xFF, 0xFF, 0xFF, 0xFF, 0xFF, 0xFF, 0xFF, 0xFF, 0xFF]) (new_pbf 0 10)
     = (Inl VarintTooLong, \<lparr>data = 10, endp = 10, val = 0, tag = 0\<rparr>, [0, 1, 2, 3, 4, 5, 6, 7, 8, 9])"
  by (simp add: varint_def varint_loop.simps mem_of_def new_pbf_def shl_def shl_masked_def
      is_wire_type_def wire_type_def)

text \<open>
  Claim C3, amended.  A buffer that ends inside a varint with fewer than ten bytes
  remaining: every byte from the read position to the end has its continuation bit set,
  and there are fewer than ten of them.  Then \<open>varint\<close> fails with \<open>UnterminatedVarint\<close>,
  leaves the read position at \<open>end\<close>, and has read exactly the addresses from \<open>data\<close> up
  to \<open>end\<close>, none outside \<^verbatim>\<open>[data, end)\<close>.  The precondition of \<open>varint\<close> on the wire type
  is assumed where assertions are compiled in.
\<close>

theorem varint_unterminated:
  assumes "chk \<longrightarrow> is_wire_type c 0 \<or> is_wire_type c 2"
    and "data c \<le> endp c" and "endp c - data c < 10"
    and "\<forall>a \<in> {data c..<endp c}. m a AND 0x80 \<noteq> 0"
  shows "varint chk wide m c = (Inl UnterminatedVarint, c\<lparr>data := endp c\<rparr>, [data c..<endp c])"
proof -
  have "varint_loop wide m c 0x80 0 0 [] = (Inl UnterminatedVarint, c\<lparr>data := endp c\<rparr>, [] @ [data c..<endp c])"
    using assms by (intro varint_loop_unterminated) auto
  with assms(1) show ?thesis by (auto simp: varint_def)
qed

theorem varint_unterminated_witness:
  "(is_wire_type (new_pbf 0 2) 0 \<or> is_wire_type (new_pbf 0 2) 2) \<and>
   data (new_pbf 0 2) \<le> endp (new_pbf 0 2) \<and> endp (new_pbf 0 2) - data (new_pbf 0 2) < 10 \<and>
   mem_of [0x96, 0x81] 0 AND 0x80 \<noteq> 0 \<and> mem_of [0x96, 0x81] 1 AND 0x80 \<noteq> 0 \<and>
   varint True (shl_masked :: 32 word \<Rightarrow> nat \<Rightarrow> 32 word) (mem_of [0x96, 0x81]) (new_pbf 0 2)
     = (Inl UnterminatedVarint, \<lparr>data = 2, endp = 2, val = 0, tag = 0\<rparr>, [0, 1])"
proof -
  let ?m = "mem_of [0x96, 0x81]"
  have b0: "?m 0 AND 0x80 \<noteq> 0" and b1: "?m 1 AND 0x80 \<noteq> 0"
    by (simp_all add: mem_of_def)
  have range: "{data (new_pbf 0 2)..<endp (new_pbf 0 2)} = {0, 1}"
    by (auto simp: new_pbf_def)
  have wt: "is_wire_type (new_pbf 0 2) 0 \<or> is_wire_type (new_pbf 0 2) 2"
    by (simp add: is_wire_type_def wire_type_def new_pbf_def)
  have le: "data (new_pbf 0 2) \<le> endp (new_pbf 0 2)"
    and few: "endp (new_pbf 0 2) - data (new_pbf 0 2) < 10"
    by (simp_all add: new_pbf_def)
  have "varint True (shl_masked :: 32 word \<Rightarrow> nat \<Rightarrow> 32 word) ?m (new_pbf 0 2)
          = (Inl UnterminatedVarint, new_pbf 0 2\<lparr>data := endp (new_pbf 0 2)\<rparr>,
             [data (new_pbf 0 2)..<endp (new_pbf 0 2)])"
    using wt le few b0 b1 by (intro varint_unterminated) (simp_all only: range, simp_all)
  moreover have "new_pbf 0 2\<lparr>data := endp (new_pbf 0 2)\<rparr> = \<lparr>data = 2, endp = 2, val = 0, tag = 0\<rparr>"
    and "[data (new_pbf 0 2)..<endp (new_pbf 0 2)] = [0, 1]"
    by (simp_all add: new_pbf_def upt_rec)
  ultimately show ?thesis
    using wt le few b0 b1 by simp
qed

subsection \<open>Overlong varints\<close>

lemma varint_loop_too_long:
  assumes "\<forall>a. data c \<le> a \<and> a < data c + n \<longrightarrow> m a AND 0x80 \<noteq> 0"
    and "byte AND 0x80 \<noteq> 0" and "data c + n \<le> endp c" and "bitpos + 7 * n = 70"
  shows "varint_loop wide m c byte result bitpos rd
           = (Inl VarintTooLong, c\<lparr>data := data c + n\<rparr>, rd @ [data c..<data c + n])"
  using assms
proof (induction wide m c byte result bitpos rd arbitrary: n rule: varint_loop.induct)
  case (1 wide m c byte result bitpos rd)
  show ?case
  proof (cases n)
    case 0
    with "1.prems" show ?thesis
      by (simp add: varint_loop.simps [of wide m c])
  next
    case (Suc k)
    with "1.prems" have loop: "bitpos < 70 \<and> byte AND 0x80 \<noteq> 0" and more: "\<not> data c \<ge> endp c"
      by simp_all
    let ?c = "c\<lparr>data := data c + 1\<rparr>"
    have "varint_loop wide m ?c (m (data c))
            (result OR shl wide (ucast (m (data c)) AND 0x7F) bitpos) (bitpos + 7) (rd @ [data c])
          = (Inl VarintTooLong, ?c\<lparr>data := data ?c + k\<rparr>, (rd @ [data c]) @ [data ?c..<data ?c + k])"
      using "1.prems" Suc by (intro "1.IH" [OF loop more]) auto
    with loop more Suc show ?thesis
      by (simp add: varint_loop.simps [of wide m c] upt_conv_Cons)
  qed
qed

lemma varint_loop_groups:
  assumes "varint_loop wide m c byte result bitpos rd = (r, c', rd')"
  shows "if bitpos < 70 then bitpos + 7 * (data c' - data c) < 77 else data c' = data c"
  using assms
proof (induction wide m c byte result bitpos rd rule: varint_loop.induct)
  case (1 wide m c byte result bitpos rd)
  show ?case
  proof (cases "bitpos < 70 \<and> byte AND 0x80 \<noteq> 0 \<and> \<not> data c \<ge> endp c")
    case True
    let ?c = "c\<lparr>data := data c + 1\<rparr>"
    from True "1.prems" have rec:
      "varint_loop wide m ?c (m (data c))
         (result OR shl wide (ucast (m (data c)) AND 0x7F) bitpos) (bitpos + 7) (rd @ [data c])
       = (r, c', rd')"
      by (simp add: varint_loop.simps [of wide m c])
    from True have "bitpos < 70 \<and> byte AND 0x80 \<noteq> 0" and "\<not> data c \<ge> endp c" by simp_all
    from "1.IH" [OF this rec] varint_loop_frame [OF rec] True show ?thesis
      by (auto split: if_splits)
  next
    case False
    with "1.prems" show ?thesis
      by (auto simp: varint_loop.simps [of wide m c] split: if_splits)
  qed
qed

lemma varint_groups:
  assumes "varint chk wide m c = (r, c', rd)"
  shows "data c' \<le> data c + 10 \<and> length rd \<le> 10"
proof (cases "chk \<and> \<not> (is_wire_type c 0 \<or> is_wire_type c 2)")
  case True
  with assms show ?thesis by (auto simp: varint_def)
next
  case False
  with assms have loop: "varint_loop wide m c 0x80 0 0 [] = (r, c', rd)"
    by (auto simp: varint_def)
  from varint_loop_groups [OF loop] varint_loop_frame [OF loop] show ?thesis
    by auto
qed


text \<open>
  Claim C4.  When the next ten bytes all have the continuation bit set, \<open>varint\<close> reads
  exactly these ten bytes, leaves the read position behind them and fails with
  \<open>VarintTooLong\<close>.  On every input, whatever the outcome, \<open>varint\<close> reads at most ten
  bytes and moves the read position by at most ten: never more than ten groups of seven
  bits.
\<close>

theorem varint_too_long:
  assumes "chk \<longrightarrow> is_wire_type c 0 \<or> is_wire_type c 2"
  shows "(data c + 10 \<le> endp c \<and> (\<forall>a \<in> {data c..<data c + 10}. m a AND 0x80 \<noteq> 0) \<longrightarrow>
           varint chk wide m c
             = (Inl VarintTooLong, c\<lparr>data := data c + 10\<rparr>, [data c..<data c + 10])) \<and>
         data (fst (snd (varint chk wide m c))) \<le> data c + 10 \<and>
         length (snd (snd (varint chk wide m c))) \<le> 10"
proof -
  have "varint chk wide m c
          = (Inl VarintTooLong, c\<lparr>data := data c + 10\<rparr>, [data c..<data c + 10])"
    if "data c + 10 \<le> endp c" "\<forall>a \<in> {data c..<data c + 10}. m a AND 0x80 \<noteq> 0"
  proof -
    have "varint_loop wide m c 0x80 0 0 []
            = (Inl VarintTooLong, c\<lparr>data := data c + 10\<rparr>, [] @ [data c..<data c + 10])"
      using that by (intro varint_loop_too_long) auto
    with assms show ?thesis by (auto simp: varint_def)
  qed
  moreover have "data (fst (snd (varint chk wide m c))) \<le> data c + 10 \<and>
                 length (snd (snd (varint chk wide m c))) \<le> 10"
    using varint_groups [of chk wide m c] by (metis prod.collapse)
  ultimately show ?thesis by blast
qed

theorem varint_too_long_witness:
  "(is_wire_type (new_pbf 0 11) 0 \<or> is_wire_type (new_pbf 0 11) 2) \<and>
   varint True (shl_masked :: 32 word \<Rightarrow> nat \<Rightarrow> 32 word)
       (mem_of [0xFF, 0xFF, 0xFF, 0xFF, 0xFF, 0xFF, 0xFF, 0xFF, 0xFF, 0xFF, 0x01]) (new_pbf 0 11)
     = (Inl VarintTooLong, \<lparr>data = 10, endp = 11, val = 0, tag = 0\<rparr>, [0, 1, 2, 3, 4, 5, 6, 7, 8, 9])"
proof -
  let ?m = "mem_of [0xFF, 0xFF, 0xFF, 0xFF, 0xFF, 0xFF, 0xFF, 0xFF, 0xFF, 0xFF, 0x01]"
  have bytes: "\<forall>a \<in> {data (new_pbf 0 11)..<data (new_pbf 0 11) + 10}. ?m a AND 0x80 \<noteq> 0"
    by (auto simp: new_pbf_def mem_of_def nth_Cons')
  have wt: "is_wire_type (new_pbf 0 11) 0 \<or> is_wire_type (new_pbf 0 11) 2"
    by (simp add: is_wire_type_def wire_type_def new_pbf_def)
  have "data (new_pbf 0 11) + 10 \<le> endp (new_pbf 0 11)"
    by (simp add: new_pbf_def)
  with varint_too_long [of True "new_pbf 0 11" ?m shl_masked] bytes wt
  have "varint True (shl_masked :: 32 word \<Rightarrow> nat \<Rightarrow> 32 word) ?m (new_pbf 0 11)
          = (Inl VarintTooLong, new_pbf 0 11\<lparr>data := data (new_pbf 0 11) + 10\<rparr>,
             [data (new_pbf 0 11)..<data (new_pbf 0 11) + 10])"
    by blast
  moreover have "new_pbf 0 11\<lparr>data := data (new_pbf 0 11) + 10\<rparr> = \<lparr>data = 10, endp = 11, val = 0, tag = 0\<rparr>"
    and "[data (new_pbf 0 11)..<data (new_pbf 0 11) + 10] = [0, 1, 2, 3, 4, 5, 6, 7, 8, 9]"
    by (simp_all add: new_pbf_def upt_rec)
  ultimately show ?thesis
    using wt by simp
qed

subsection \<open>Unknown wire types\<close>

text \<open>
  Claim C8.  When the wire type of the most recently decoded key (the low three bits of
  \<open>val\<close>) is none of 0, 1, 2 and 5, \<open>skip\<close> fails with \<open>UnknownFieldType\<close>, the cursor is
  exactly as it was, and nothing has been read.
\<close>

theorem skip_unknown_wire_type:
  assumes "wire_type c \<notin> {0, 1, 2, 5}"
  shows "skip chk wide m c = (Inl UnknownFieldType, c, [])"
proof -
  have "uint (val c AND 7) \<noteq> uint (0 :: 32 word)" "uint (val c AND 7) \<noteq> uint (1 :: 32 word)"
       "uint (val c AND 7) \<noteq> uint (2 :: 32 word)" "uint (val c AND 7) \<noteq> uint (5 :: 32 word)"
    using assms by (simp_all add: wire_type_def)
  then have "val c AND 7 \<noteq> 0" "val c AND 7 \<noteq> 1" "val c AND 7 \<noteq> 2" "val c AND 7 \<noteq> 5"
    by (simp_all only: word_uint_eq_iff not_False_eq_True)
  then show ?thesis
    by (simp add: skip_def skipValue_def)
qed

theorem skip_unknown_wire_type_witness:
  "wire_type \<lparr>data = 2, endp = 9, val = 0x1B, tag = 3\<rparr> \<notin> {0, 1, 2, 5} \<and>
   skip True shl_masked (mem_of [0x08, 0x01, 0x1B, 0x08, 0x02]) \<lparr>data = 2, endp = 9, val = 0x1B, tag = 3\<rparr>
     = (Inl UnknownFieldType, \<lparr>data = 2, endp = 9, val = 0x1B, tag = 3\<rparr>, [])"
proof -
  have h: "wire_type \<lparr>data = 2, endp = 9, val = 0x1B, tag = 3\<rparr> \<notin> {0, 1, 2, 5}"
    by (simp add: wire_type_def)
  from h skip_unknown_wire_type [OF h] show ?thesis by simp
qed


subsection \<open>ZigZag decoding\<close>

text \<open>
  Claim C1 (fails on the code).  \<^verbatim>\<open>svarint<int64_t>\<close> on the ZigZag varint of \<open>INT64_MIN\<close>
  returns 0, on that of \<open>INT64_MAX\<close> it returns \<open>-1\<close>; \<^verbatim>\<open>svarint<int32_t>\<close> does the same
  at the extremes of \<^verbatim>\<open>int32_t\<close>.  The decoded varint \<open>n\<close> has its top bit set there, and
  \<^verbatim>\<open>n >> 1\<close> on the signed \<open>n\<close> shifts the sign bit in instead of a zero.
\<close>

theorem svarint_signed_extremes:
  "encode_varint (unat (zigzag (0x8000000000000000 :: 64 word)))
     = [0xFF, 0xFF, 0xFF, 0xFF, 0xFF, 0xFF, 0xFF, 0xFF, 0xFF, 0x01] \<and>
   svarint Signed False (shl_masked :: 64 word \<Rightarrow> nat \<Rightarrow> 64 word)
       (mem_of [0xFF, 0xFF, 0xFF, 0xFF, 0xFF, 0xFF, 0xFF, 0xFF, 0xFF, 0x01]) (new_pbf 0 10)
     = (Inr 0, \<lparr>data = 10, endp = 10, val = 0, tag = 0\<rparr>, [0, 1, 2, 3, 4, 5, 6, 7, 8, 9]) \<and>
   encode_varint (unat (zigzag (0x7FFFFFFFFFFFFFFF :: 64 word)))
     = [0xFE, 0xFF, 0xFF, 0xFF, 0xFF, 0xFF, 0xFF, 0xFF, 0xFF, 0x01] \<and>
   svarint Signed False (shl_masked :: 64 word \<Rightarrow> nat \<Rightarrow> 64 word)
       (mem_of [0xFE, 0xFF, 0xFF, 0xFF, 0xFF, 0xFF, 0xFF, 0xFF, 0xFF, 0x01]) (new_pbf 0 10)
     = (Inr (- 1), \<lparr>data = 10, endp = 10, val = 0, tag = 0\<rparr>, [0, 1, 2, 3, 4, 5, 6, 7, 8, 9]) \<and>
   encode_varint (unat (zigzag (0x80000000 :: 32 word))) = [0xFF, 0xFF, 0xFF, 0xFF, 0x0F] \<and>
   svarint Signed False (shl_masked :: 32 word \<Rightarrow> nat \<Rightarrow> 32 word)
       (mem_of [0xFF, 0xFF, 0xFF, 0xFF, 0x0F]) (new_pbf 0 5)
     = (Inr 0, \<lparr>data = 5, endp = 5, val = 0, tag = 0\<rparr>, [0, 1, 2, 3, 4]) \<and>
   encode_varint (unat (zigzag (0x7FFFFFFF :: 32 word))) = [0xFE, 0xFF, 0xFF, 0xFF, 0x0F] \<and>
   svarint Signed False (shl_masked :: 32 word \<Rightarrow> nat \<Rightarrow> 32 word)
       (mem_of [0xFE, 0xFF, 0xFF, 0xFF, 0x0F]) (new_pbf 0 5)
     = (Inr (- 1), \<lparr>data = 5, endp = 5, val = 0, tag = 0\<rparr>, [0, 1, 2, 3, 4])"
  by (simp add: zigzag_def encode_varint.simps svarint_def seq_def shr_def varint_def
      varint_loop.simps mem_of_def new_pbf_def shl_def)

text \<open>The same bytes decoded with the logical shift of an unsigned \<open>T\<close> give the extremes back.\<close>

lemma svarint_unsigned_extremes:
  "svarint Unsigned False (shl_masked :: 64 word \<Rightarrow> nat \<Rightarrow> 64 word)
       (mem_of [0xFF, 0xFF, 0xFF, 0xFF, 0xFF, 0xFF, 0xFF, 0xFF, 0xFF, 0x01]) (new_pbf 0 10)
     = (Inr 0x8000000000000000, \<lparr>data = 10, endp = 10, val = 0, tag = 0\<rparr>, [0, 1, 2, 3, 4, 5, 6, 7, 8, 9]) \<and>
   svarint Unsigned False (shl_masked :: 64 word \<Rightarrow> nat \<Rightarrow> 64 word)
       (mem_of [0xFE, 0xFF, 0xFF, 0xFF, 0xFF, 0xFF, 0xFF, 0xFF, 0xFF, 0x01]) (new_pbf 0 10)
     = (Inr 0x7FFFFFFFFFFFFFFF, \<lparr>data = 10, endp = 10, val = 0, tag = 0\<rparr>, [0, 1, 2, 3, 4, 5, 6, 7, 8, 9])"
  by (simp add: svarint_def seq_def shr_def varint_def
      varint_loop.simps mem_of_def new_pbf_def shl_def)

subsection \<open>Results narrower than the encoded value\<close>

text \<open>
  Claim C5 (fails on the code).  Decoded into a 32-bit \<^verbatim>\<open>T\<close>, the six-byte varint of
  \<open>2 ^ 35\<close> shifts its sixth group by 35, which no 32-bit shift defines; where the count
  is taken modulo 32 the group lands on bit 3 and the result is 8, not
  \<open>2 ^ 35 mod 2 ^ 32 = 0\<close>.  Likewise the ten-byte varint of \<open>2 ^ 64 - 9\<close> (the \<^verbatim>\<open>int32\<close>
  value \<open>-9\<close> as protobuf writes it) decodes to \<open>0xFFFFFFFF\<close> instead of \<open>0xFFFFFFF7\<close>.
\<close>

theorem varint_narrow_result_long_encoding:
  "varint_value [0x80, 0x80, 0x80, 0x80, 0x80, 0x01] = 2 ^ 35 \<and>
   (of_nat (2 ^ 35) :: 32 word) = 0 \<and>
   varint False (shl_masked :: 32 word \<Rightarrow> nat \<Rightarrow> 32 word)
       (mem_of [0x80, 0x80, 0x80, 0x80, 0x80, 0x01]) (new_pbf 0 6)
     = (Inr 8, \<lparr>data = 6, endp = 6, val = 0, tag = 0\<rparr>, [0, 1, 2, 3, 4, 5]) \<and>
   varint_value [0xF7, 0xFF, 0xFF, 0xFF, 0xFF, 0xFF, 0xFF, 0xFF, 0xFF, 0x01] = 2 ^ 64 - 9 \<and>
   (of_nat (2 ^ 64 - 9) :: 32 word) = 0xFFFFFFF7 \<and>
   varint False (shl_masked :: 32 word \<Rightarrow> nat \<Rightarrow> 32 word)
       (mem_of [0xF7, 0xFF, 0xFF, 0xFF, 0xFF, 0xFF, 0xFF, 0xFF, 0xFF, 0x01]) (new_pbf 0 10)
     = (Inr 0xFFFFFFFF, \<lparr>data = 10, endp = 10, val = 0, tag = 0\<rparr>, [0, 1, 2, 3, 4, 5, 6, 7, 8, 9])"
  by (simp add: varint_def varint_loop.simps mem_of_def new_pbf_def shl_def shl_masked_def)


text \<open>
  What does hold: a well-formed varint all of whose shifts stay below the width of the
  (promoted) \<^verbatim>\<open>T\<close> decodes to its value modulo \<open>2 ^ w\<close>.  That is every varint for a
  64-bit \<^verbatim>\<open>T\<close>, and the varints of at most five bytes for a 32-bit \<^verbatim>\<open>T\<close>.  On a target
  where an oversized shift yields 0 it holds for every well-formed varint.
\<close>

lemma low7_mask: "(0x7F :: 'a::len word) = mask 7"
  by (simp add: mask_eq_exp_minus_1)

lemma ucast_low7:
  fixes b :: byte
  shows "(ucast b AND 0x7F :: 'a::len word) = ucast (b AND 0x7F)"
  unfolding low7_mask by (rule bit_word_eqI) (auto simp: bit_simps)

lemma group_or:
  fixes b :: byte
  shows "(of_nat (unat (b AND 0x7F) + 128 * n) :: 'a::len word)
           = (ucast b AND 0x7F) OR push_bit 7 (of_nat n)"
proof -
  have "(of_nat (unat (b AND 0x7F) + 128 * n) :: 'a word)
          = ucast (b AND 0x7F) + push_bit 7 (of_nat n)"
    by (simp add: push_bit_eq_mult)
  also have "\<dots> = ucast (b AND 0x7F) OR push_bit 7 (of_nat n)"
    unfolding low7_mask
    by (rule disjunctive_add) (auto simp: bit_simps)
  finally show ?thesis by (simp add: ucast_low7)
qed


lemma shl_push_bit:
  fixes x :: "'a::len word"
  assumes "wide = shl_zero \<or> n < max 32 LENGTH('a)"
  shows "shl wide x n = push_bit n x"
proof (cases "n < max 32 LENGTH('a)")
  case True
  then show ?thesis by (simp add: shl_def)
next
  case False
  then have "LENGTH('a) \<le> n" by simp
  then have "push_bit n x = 0"
    by (intro bit_word_eqI) (auto simp: bit_simps)
  with False assms show ?thesis
    by (simp add: shl_def shl_zero_def)
qed

lemma varint_loop_decodes:
  fixes result :: "'a::len word"
  assumes "map m [data c..<data c + length bs] = bs"
    and "bs \<noteq> []"
    and "list_all (\<lambda>b. b AND 0x80 \<noteq> 0) (butlast bs)"
    and "last bs AND 0x80 = 0"
    and "byte AND 0x80 \<noteq> 0"
    and "data c + length bs \<le> endp c"
    and "bitpos + 7 * length bs \<le> 70"
    and "wide = shl_zero \<or> bitpos + 7 * (length bs - 1) < max 32 LENGTH('a)"
  shows "varint_loop wide m c byte result bitpos rd
           = (Inr (result OR push_bit bitpos (of_nat (varint_value bs))),
              c\<lparr>data := data c + length bs\<rparr>, rd @ [data c..<data c + length bs])"
  using assms
proof (induction bs arbitrary: c byte result bitpos rd)
  case Nil
  then show ?case by simp
next
  case (Cons b bs)
  let ?c = "c\<lparr>data := data c + 1\<rparr>"
  let ?r = "result OR shl wide (ucast (m (data c)) AND 0x7F) bitpos"
  have "[data c..<data c + length (b # bs)] = data c # [data ?c..<data ?c + length bs]"
    by (simp del: upt_Suc add: upt_conv_Cons)
  with Cons.prems(1) have "map m (data c # [data ?c..<data ?c + length bs]) = b # bs"
    by (simp only:)
  then have here: "m (data c) = b"
    and rest: "map m [data ?c..<data ?c + length bs] = bs"
    by (simp_all del: upt_Suc)
  from Cons.prems have loop: "bitpos < 70 \<and> byte AND 0x80 \<noteq> 0" and more: "\<not> data c \<ge> endp c"
    by simp_all
  from Cons.prems(8) have "wide = shl_zero \<or> bitpos < max 32 LENGTH('a)"
    by auto
  then have r: "?r = result OR push_bit bitpos (ucast b AND 0x7F)"
    by (simp add: shl_push_bit here)
  have step: "varint_loop wide m c byte result bitpos rd
                = varint_loop wide m ?c b ?r (bitpos + 7) (rd @ [data c])"
    using loop more here by (simp add: varint_loop.simps [of wide m c])
  show ?case
  proof (cases "bs = []")
    case True
    with Cons.prems(4) have "b AND 0x80 = 0" by simp
    then have "varint_loop wide m ?c b ?r (bitpos + 7) (rd @ [data c]) = (Inr ?r, ?c, rd @ [data c])"
      by (subst varint_loop.simps) simp
    moreover have "(of_nat (varint_value (b # bs)) :: 'a word) = ucast b AND 0x7F"
      using group_or [of b 0, where 'a = 'a] True by simp
    ultimately show ?thesis
      using step r True by (simp del: upt_Suc add: upt_conv_Cons)
  next
    case False
    with Cons.prems have cont: "b AND 0x80 \<noteq> 0" and all: "list_all (\<lambda>b. b AND 0x80 \<noteq> 0) (butlast bs)"
      and last: "last bs AND 0x80 = 0"
      by simp_all
    from False have "length bs \<noteq> 0" by simp
    with Cons.prems(8) have "wide = shl_zero \<or> bitpos + 7 + 7 * (length bs - 1) < max 32 LENGTH('a)"
      by (cases "length bs") auto
    with Cons.prems(6,7)
    have "varint_loop wide m ?c b ?r (bitpos + 7) (rd @ [data c])
            = (Inr (?r OR push_bit (bitpos + 7) (of_nat (varint_value bs))),
               ?c\<lparr>data := data ?c + length bs\<rparr>, (rd @ [data c]) @ [data ?c..<data ?c + length bs])"
      by (intro Cons.IH [OF rest False all last cont]) simp_all
    moreover have "?r OR push_bit (bitpos + 7) (of_nat (varint_value bs))
                     = result OR push_bit bitpos (of_nat (varint_value (b # bs)))"
    proof -
      have "(of_nat (varint_value (b # bs)) :: 'a word)
              = (ucast b AND 0x7F) OR push_bit 7 (of_nat (varint_value bs))"
        unfolding varint_value.simps by (rule group_or)
      then have "push_bit bitpos (of_nat (varint_value (b # bs)) :: 'a word)
              = push_bit bitpos (ucast b AND 0x7F) OR push_bit (bitpos + 7) (of_nat (varint_value bs))"
        by (simp only: push_bit_or push_bit_push_bit)
      then show ?thesis
        unfolding r by (simp only: or.assoc)
    qed
    ultimately show ?thesis
      using step more by (simp del: upt_Suc add: upt_conv_Cons)
  qed
qed

lemma varint_decodes:
  assumes "chk \<longrightarrow> is_wire_type c 0 \<or> is_wire_type c 2"
    and "well_formed_varint bs"
    and "map m [data c..<data c + length bs] = bs"
    and "data c + length bs \<le> endp c"
    and "wide = shl_zero \<or> 7 * (length bs - 1) < max 32 LENGTH('a)"
  shows "varint chk wide m c
           = (Inr (of_nat (varint_value bs) :: 'a::len word),
              c\<lparr>data := data c + length bs\<rparr>, [data c..<data c + length bs])"
proof -
  from assms(2) have "bs \<noteq> []" "list_all (\<lambda>b. b AND 0x80 \<noteq> 0) (butlast bs)" "last bs AND 0x80 = 0"
    "0 + 7 * length bs \<le> 70"
    by (simp_all add: well_formed_varint_def)
  moreover from assms(5) have "wide = shl_zero \<or> 0 + 7 * (length bs - 1) < max 32 LENGTH('a)"
    by simp
  ultimately have "varint_loop wide m c 0x80 0 0 []
          = (Inr (0 OR push_bit 0 (of_nat (varint_value bs)) :: 'a word),
             c\<lparr>data := data c + length bs\<rparr>, [] @ [data c..<data c + length bs])"
    using assms(3,4) by (intro varint_loop_decodes) simp_all
  with assms(1) show ?thesis by (auto simp: varint_def)
qed

lemma varint_decodes_64:
  assumes "chk \<longrightarrow> is_wire_type c 0 \<or> is_wire_type c 2"
    and "well_formed_varint bs"
    and "map m [data c..<data c + length bs] = bs"
    and "data c + length bs \<le> endp c"
  shows "varint chk wide m c
           = (Inr (of_nat (varint_value bs) :: 64 word),
              c\<lparr>data := data c + length bs\<rparr>, [data c..<data c + length bs])"
proof -
  from assms(2) have "length bs \<le> 10"
    by (simp add: well_formed_varint_def)
  then have "7 * (length bs - 1) < max 32 LENGTH(64)"
    by simp
  with assms show ?thesis
    by (intro varint_decodes) simp_all
qed

subsection \<open>Where ZigZag decoding is right\<close>

text \<open>
  The extent of the defect of C1.  For a result type of at most 64 bits, \<open>svarint\<close> on the
  ZigZag varint of \<open>v\<close> returns \<open>v\<close> when \<^verbatim>\<open>T\<close> is unsigned, and when \<^verbatim>\<open>T\<close> is signed and
  the ZigZag code of \<open>v\<close> has its top bit clear, which is when the two top bits of \<open>v\<close>
  are equal (\<open>v\<close> between \<open>- 2 ^ (w - 2)\<close> and \<open>2 ^ (w - 2) - 1\<close>).  For a signed \<^verbatim>\<open>T\<close> and
  the other half of the values it returns \<open>v\<close> with the sign bit flipped.
\<close>

lemma sign_fill:
  fixes v :: "'a::len word"
  shows "signed_drop_bit (LENGTH('a) - 1) v = (if bit v (LENGTH('a) - 1) then - 1 else 0)"
  by (rule bit_word_eqI) (auto simp: bit_simps not_less_eq_eq)

lemma bit_shl1:
  fixes v :: "'a::len word"
  shows "bit (push_bit 1 v) n \<longleftrightarrow> 0 < n \<and> n < LENGTH('a) \<and> bit v (n - 1)"
  by (auto simp: bit_simps simp del: push_bit_of_Suc_0 push_bit_Suc)

lemma bit_zigzag:
  fixes v :: "'a::len word"
  shows "bit (zigzag v) n \<longleftrightarrow>
           n < LENGTH('a) \<and> ((0 < n \<and> bit v (n - 1)) \<noteq> bit v (LENGTH('a) - 1))"
  unfolding zigzag_def sign_fill bit_xor_iff bit_shl1
  by (auto simp: bit_simps)

lemma zigzag_top_bit:
  fixes v :: "'a::len word"
  assumes "2 \<le> LENGTH('a)"
  shows "bit (zigzag v) (LENGTH('a) - 1) \<longleftrightarrow> bit v (LENGTH('a) - 2) \<noteq> bit v (LENGTH('a) - 1)"
proof -
  from assms have "LENGTH('a) - 1 - 1 = LENGTH('a) - 2" "0 < LENGTH('a) - 1"
    by simp_all
  then show ?thesis
    by (simp add: bit_zigzag)
qed

lemma zigzag_low_bit:
  fixes v :: "'a::len word"
  shows "zigzag v AND 1 = (if bit v (LENGTH('a) - 1) then 1 else 0)"
  by (rule bit_word_eqI) (auto simp: bit_zigzag bit_simps)

lemma unzigzag:
  fixes v :: "'a::len word"
  shows "drop_bit 1 (zigzag v) XOR - (zigzag v AND 1) = v"
  unfolding zigzag_low_bit
proof (rule bit_word_eqI)
  fix n
  assume n: "n < LENGTH('a)"
  let ?s = "bit v (LENGTH('a) - 1)"
  show "bit (drop_bit 1 (zigzag v) XOR - (if ?s then 1 else 0)) n \<longleftrightarrow> bit v n"
  proof (cases "Suc n < LENGTH('a)")
    case True
    with n show ?thesis
      by (auto simp: bit_zigzag bit_simps)
  next
    case False
    with n have "n = LENGTH('a) - 1" by simp
    with n show ?thesis
      by (auto simp: bit_zigzag bit_simps)
  qed
qed


lemma low7_of_nat:
  assumes "k < 128"
  shows "(of_nat k :: byte) AND 0x80 = 0"
    and "unat ((of_nat k :: byte) AND 0x7F) = k"
    and "unat (((of_nat k :: byte) OR 0x80) AND 0x7F) = k"
    and "((of_nat k :: byte) OR 0x80) AND 0x80 \<noteq> 0"
proof -
  have "(0x80 :: byte) = 2 ^ 7"
    by simp
  then have h: "bit (0x80 :: byte) n \<longleftrightarrow> n = 7" for n
    by (simp only: bit_exp_iff) auto
  have m: "(0x7F :: byte) = NOT 0x80"
    by simp
  from assms have x: "(of_nat k :: byte) = take_bit 7 (of_nat k)"
    by (simp add: take_bit_of_nat take_bit_nat_eq_self)
  have "take_bit 7 (of_nat k :: byte) AND 0x80 = 0"
  proof (rule bit_word_eqI)
    fix n
    show "bit (take_bit 7 (of_nat k :: byte) AND 0x80) n \<longleftrightarrow> bit (0 :: byte) n"
      by (simp only: bit_and_iff bit_take_bit_iff h) simp
  qed
  with x show hi: "(of_nat k :: byte) AND 0x80 = 0"
    by simp
  have "(of_nat k AND 0x80) OR (of_nat k AND NOT 0x80) = (of_nat k :: byte)"
    by (simp only: flip: bit.conj_disj_distrib) (simp only: bit.disj_cancel_right and.right_neutral)
  with hi have lo: "(of_nat k :: byte) AND 0x7F = of_nat k"
    by (simp only: m or.left_neutral)
  from lo assms show "unat ((of_nat k :: byte) AND 0x7F) = k"
    by (simp add: unat_of_nat)
  have "((of_nat k :: byte) OR 0x80) AND 0x7F = (of_nat k AND 0x7F) OR (0x80 AND 0x7F)"
    by (simp add: bit.conj_disj_distrib2)
  with lo assms show "unat (((of_nat k :: byte) OR 0x80) AND 0x7F) = k"
    by (simp add: unat_of_nat)
  have "((of_nat k :: byte) OR 0x80) AND 0x80 = (of_nat k AND 0x80) OR (0x80 AND 0x80)"
    by (simp add: bit.conj_disj_distrib2)
  with hi show "((of_nat k :: byte) OR 0x80) AND 0x80 \<noteq> 0"
    by simp
qed

lemma varint_value_encode: "varint_value (encode_varint n) = n"
proof (induction n rule: encode_varint.induct)
  case (1 n)
  show ?case
  proof (cases "n < 128")
    case True
    then show ?thesis
      by (simp add: encode_varint.simps [of n] low7_of_nat)
  next
    case False
    have "n mod 128 < 128" by simp
    from low7_of_nat(3) [OF this] "1.IH" [OF False] False show ?thesis
      by (simp add: encode_varint.simps [of n])
  qed
qed

lemma encode_varint_shape:
  "encode_varint n \<noteq> [] \<and> list_all (\<lambda>b. b AND 0x80 \<noteq> 0) (butlast (encode_varint n)) \<and>
   last (encode_varint n) AND 0x80 = 0"
proof (induction n rule: encode_varint.induct)
  case (1 n)
  show ?case
  proof (cases "n < 128")
    case True
    then show ?thesis
      by (simp add: encode_varint.simps [of n] low7_of_nat)
  next
    case False
    have "n mod 128 < 128" by simp
    from low7_of_nat(4) [OF this] "1.IH" [OF False] False show ?thesis
      by (simp add: encode_varint.simps [of n])
  qed
qed

lemma encode_varint_length:
  assumes "n < 2 ^ w" and "0 < w"
  shows "7 * (length (encode_varint n) - 1) < w"
  using assms
proof (induction n arbitrary: w rule: encode_varint.induct)
  case (1 n)
  show ?case
  proof (cases "n < 128")
    case True
    with "1.prems" show ?thesis
      by (simp add: encode_varint.simps [of n])
  next
    case False
    with "1.prems"(1) have "2 ^ 7 < (2 :: nat) ^ w"
      by simp
    then have w: "7 < w"
      by (simp only: power_strict_increasing_iff [of 2] semiring_norm)
    then have "w = 7 + (w - 7)"
      by simp
    then have "(2 :: nat) ^ w = 2 ^ 7 * 2 ^ (w - 7)"
      by (metis power_add)
    then have "(2 :: nat) ^ w = 128 * 2 ^ (w - 7)"
      by simp
    with "1.prems"(1) have "n div 128 < 2 ^ (w - 7)"
      by (simp add: less_mult_imp_div_less mult.commute)
    from "1.IH" [OF False this] w have "7 * (length (encode_varint (n div 128)) - 1) < w - 7"
      by simp
    moreover from encode_varint_shape [of "n div 128"] have "0 < length (encode_varint (n div 128))"
      by simp
    ultimately show ?thesis
      using False w by (simp add: encode_varint.simps [of n])
  qed
qed


lemma well_formed_encode_varint:
  assumes "n < 2 ^ w" and "0 < w" and "w \<le> 64"
  shows "well_formed_varint (encode_varint n)"
proof -
  from encode_varint_length [OF assms(1,2)] assms(3) have "length (encode_varint n) \<le> 10"
    by simp
  with encode_varint_shape [of n] show ?thesis
    by (simp add: well_formed_varint_def)
qed

lemma arithmetic_shift1:
  fixes z :: "'a::len word"
  shows "signed_drop_bit 1 z
           = drop_bit 1 z XOR (if bit z (LENGTH('a) - 1) then push_bit (LENGTH('a) - 1) 1 else 0)"
proof (rule bit_word_eqI)
  fix n
  assume n: "n < LENGTH('a)"
  show "bit (signed_drop_bit 1 z) n \<longleftrightarrow>
        bit (drop_bit 1 z XOR (if bit z (LENGTH('a) - 1) then push_bit (LENGTH('a) - 1) 1 else 0)) n"
  proof (cases "Suc n < LENGTH('a)")
    case True
    with n show ?thesis
      by (auto simp: bit_simps)
  next
    case False
    with n have "n = LENGTH('a) - 1" by simp
    with n show ?thesis
      by (auto simp: bit_simps dest: bit_imp_le_length)
  qed
qed

lemma svarint_decodes_zigzag:
  fixes v :: "'a::len word"
  assumes "chk \<longrightarrow> is_wire_type c 0 \<or> is_wire_type c 2"
    and "LENGTH('a) \<le> 64"
    and "map m [data c..<data c + length (encode_varint (unat (zigzag v)))]
           = encode_varint (unat (zigzag v))"
    and "data c + length (encode_varint (unat (zigzag v))) \<le> endp c"
  shows "svarint s chk wide m c
           = (Inr (if s = Signed \<and> bit (zigzag v) (LENGTH('a) - 1)
                   then v XOR push_bit (LENGTH('a) - 1) 1 else v),
              c\<lparr>data := data c + length (encode_varint (unat (zigzag v)))\<rparr>,
              [data c..<data c + length (encode_varint (unat (zigzag v)))])"
proof -
  let ?bs = "encode_varint (unat (zigzag v))"
  have lt: "unat (zigzag v) < 2 ^ LENGTH('a)"
    by (rule unsigned_less)
  from encode_varint_length [OF lt] have "7 * (length ?bs - 1) < LENGTH('a)"
    by simp
  then have "wide = shl_zero \<or> 7 * (length ?bs - 1) < max 32 LENGTH('a)"
    by (simp add: max_def)
  moreover from well_formed_encode_varint [OF lt _ assms(2)] have "well_formed_varint ?bs"
    by simp
  ultimately have "varint chk wide m c
      = (Inr (of_nat (varint_value ?bs) :: 'a word), c\<lparr>data := data c + length ?bs\<rparr>,
         [data c..<data c + length ?bs])"
    using assms by (intro varint_decodes) simp_all
  then have dec: "varint chk wide m c
      = (Inr (zigzag v), c\<lparr>data := data c + length ?bs\<rparr>, [data c..<data c + length ?bs])"
    by (simp add: varint_value_encode)
  have "shr s (zigzag v) 1 XOR - (zigzag v AND 1)
          = (if s = Signed \<and> bit (zigzag v) (LENGTH('a) - 1)
             then v XOR push_bit (LENGTH('a) - 1) 1 else v)"
  proof (cases s)
    case Unsigned
    with unzigzag [of v] show ?thesis
      by (simp add: shr_def)
  next
    case Signed
    have "signed_drop_bit 1 (zigzag v) XOR - (zigzag v AND 1)
            = (drop_bit 1 (zigzag v) XOR - (zigzag v AND 1))
              XOR (if bit (zigzag v) (LENGTH('a) - 1) then push_bit (LENGTH('a) - 1) 1 else 0)"
      by (simp only: arithmetic_shift1 [of "zigzag v"] xor.assoc xor.commute xor.left_commute)
    with Signed unzigzag [of v] show ?thesis
      by (simp add: shr_def)
  qed
  with dec show ?thesis
    by (simp add: svarint_def seq_def)
qed

subsection \<open>Embedded messages\<close>



subsection \<open>The filtered advance\<close>

lemma next_tag_frame:
  assumes "next_tag chk wide m c t = (r, c', rd)" and "data c \<le> endp c"
  shows "data c \<le> data c' \<and> data c' \<le> endp c \<and> endp c' = endp c \<and>
         set rd \<subseteq> {data c..<data c'} \<and> (r = Inr False \<longrightarrow> data c' = endp c)"
  using assms
proof (induction chk wide m c t arbitrary: r c' rd rule: next_tag.induct)
  case (1 chk wide m c t)
  obtain r1 c1 rd1 where nf: "next_field chk wide m c = (r1, c1, rd1)"
    by (cases "next_field chk wide m c") auto
  note f1 = next_field_frame [OF nf]
  show ?case
  proof (cases "r1 = Inr True \<and> tag c1 \<noteq> t")
    case False
    with nf "1.prems" f1 show ?thesis
      by (cases r1) (auto simp: next_tag.simps [of chk wide m c] split: if_splits bool.splits)
  next
    case True
    obtain r2 c2 rd2 where sk: "skip chk wide m c1 = (r2, c2, rd2)"
      by (cases "skip chk wide m c1") auto
    then have "skipValue chk wide m c1 (val c1) = (r2, c2, rd2)"
      by (simp add: skip_def)
    note f2 = skipValue_frame [OF this]
    have rd2: "set rd2 \<subseteq> {data c1..<data c2}"
    proof -
      from f2 have eq: "rd2 = [data c1..<length rd2 + data c1]"
        and le: "length rd2 + data c1 \<le> data c2"
        by simp_all
      from eq have "set rd2 = {data c1..<length rd2 + data c1}"
        by (metis set_upt)
      with le show ?thesis by auto
    qed
    show ?thesis
    proof (cases r2)
      case (Inl e)
      with nf sk True "1.prems" have "r = Inl e" "c' = c2" "rd = rd1 @ rd2"
        by (simp_all add: next_tag.simps [of chk wide m c])
      with f1 f2 rd2 "1.prems"(2) True show ?thesis by auto
    next
      case (Inr u)
      obtain r3 c3 rd3 where nt: "next_tag chk wide m c2 t = (r3, c3, rd3)"
        by (cases "next_tag chk wide m c2 t") auto
      from f1 f2 "1.prems"(2) True have le2: "data c2 \<le> endp c2" by simp
      have f3: "data c2 \<le> data c3 \<and> data c3 \<le> endp c2 \<and> endp c3 = endp c2 \<and>
                set rd3 \<subseteq> {data c2..<data c3} \<and> (r3 = Inr False \<longrightarrow> data c3 = endp c2)"
        using nf sk True Inr nt le2
        by (intro "1.IH" [of "Inr True" "(c1, rd1)" True c1 rd1 "Inr u" "(c2, rd2)" u c2 rd2]) simp_all
      from nf sk True Inr nt "1.prems" have "r = r3" "c' = c3" "rd = rd1 @ rd2 @ rd3"
        by (simp_all add: next_tag.simps [of chk wide m c])
      with f1 f2 f3 rd2 "1.prems"(2) True show ?thesis by auto
    qed
  qed
qed

text \<open>
  Claim C7 (fails on the code).  The buffer holds field 1 as a 32-bit fixed value and
  field 5 as the varint 2, and the target tag is 5.  With assertions compiled in,
  \<open>next_tag\<close> decodes the first key, skips the four bytes of the fixed value, and its
  second \<open>next\<close> calls \<open>varint\<close> while \<open>val\<close> still holds the key of the fixed field: the
  assertion of C10 fails and the field with tag 5 is never reached.  With assertions
  compiled out the same call lands on the value of the field with tag 5, having read
  the two keys only.
\<close>

theorem next_tag_after_fixed_fails_assertion:
  "next_tag True shl_masked (mem_of [0x0D, 0x00, 0x00, 0x80, 0x3F, 0x28, 0x02]) (new_pbf 0 7) 5
     = (Inl AssertionFailure, \<lparr>data = 5, endp = 7, val = 0x0D, tag = 1\<rparr>, [0]) \<and>
   next_tag False shl_masked (mem_of [0x0D, 0x00, 0x00, 0x80, 0x3F, 0x28, 0x02]) (new_pbf 0 7) 5
     = (Inr True, \<lparr>data = 6, endp = 7, val = 0x28, tag = 5\<rparr>, [0, 5])"
  by (simp add: next_tag.simps next_field_def skip_def skipValue_def skipBytes_def seq_def
      varint_def varint_loop.simps mem_of_def new_pbf_def shl_def is_wire_type_def wire_type_def)

text \<open>
  What does hold.  With assertions compiled out, from a cursor with \<open>data \<le> end\<close>,
  \<open>next_tag\<close> does what the specification's filtered advance says on the bytes of
  \<^verbatim>\<open>[data, end)\<close>: it fails with the same error, or returns \<open>False\<close> with the read position
  at \<open>end\<close>, or returns \<open>True\<close> with the key and the tag of the first field whose tag is
  the target and the read position on the bytes of its value, the values of the fields
  before it discarded by their wire types.  This is for every target when no key or
  length on the way has more than five bytes, and for all buffers on a target where an
  oversized shift yields 0.
\<close>

lemma wire_type_bits:
  fixes v :: "32 word"
  shows "v AND 7 = 0 \<longleftrightarrow> unat v mod 8 = 0" and "v AND 7 = 1 \<longleftrightarrow> unat v mod 8 = 1"
    and "v AND 7 = 2 \<longleftrightarrow> unat v mod 8 = 2" and "v AND 7 = 5 \<longleftrightarrow> unat v mod 8 = 5"
proof -
  have "v AND 7 = v AND mask 3"
    by (simp add: mask_eq_exp_minus_1)
  then have "unat (v AND 7) = unat v mod 8"
    by (simp add: unsigned_take_bit_eq take_bit_eq_mod unat_mod flip: take_bit_eq_mask)
  then show "v AND 7 = 0 \<longleftrightarrow> unat v mod 8 = 0" and "v AND 7 = 1 \<longleftrightarrow> unat v mod 8 = 1"
    and "v AND 7 = 2 \<longleftrightarrow> unat v mod 8 = 2" and "v AND 7 = 5 \<longleftrightarrow> unat v mod 8 = 5"
    by (simp_all add: word_unat_eq_iff)
qed

lemma varint_loop_shape:
  assumes "varint_loop wide m c byte r b rd = (x, c', rd')"
  shows "\<exists>y. varint_loop wide' m c byte r' b rd = (y, c', rd') \<and>
             (\<forall>e. x = Inl e \<longleftrightarrow> y = Inl e)"
  using assms
proof (induction wide m c byte r b rd arbitrary: r' rule: varint_loop.induct)
  case (1 wide m c byte result bitpos rd)
  show ?case
  proof (cases "bitpos < 70 \<and> byte AND 0x80 \<noteq> 0 \<and> \<not> data c \<ge> endp c")
    case True
    then have loop: "bitpos < 70 \<and> byte AND 0x80 \<noteq> 0" and more: "\<not> data c \<ge> endp c"
      by simp_all
    from True "1.prems" have
      "varint_loop wide m (c\<lparr>data := data c + 1\<rparr>) (m (data c))
         (result OR shl wide (ucast (m (data c)) AND 0x7F) bitpos) (bitpos + 7) (rd @ [data c])
       = (x, c', rd')"
      by (simp add: varint_loop.simps [of wide m c])
    from "1.IH" [OF loop more this, of "r' OR shl wide' (ucast (m (data c)) AND 0x7F) bitpos"] True
    show ?thesis
      by (simp add: varint_loop.simps [of wide' m c])
  next
    case False
    with "1.prems" show ?thesis
      by (auto simp: varint_loop.simps [of wide m c] varint_loop.simps [of wide' m c]
          split: if_splits)
  qed
qed


lemma last_take_nth:
  assumes "0 < n" and "n \<le> length xs"
  shows "last (take n xs) = xs ! (n - 1)"
proof -
  from assms have "take n xs \<noteq> []" "length (take n xs) = n"
    by auto
  with assms show ?thesis
    by (simp add: last_conv_nth)
qed

lemma varint_wire_format_error:
  assumes "data c \<le> endp c"
    and "spec_varint_len 0 (map m [data c..<endp c]) = Inl e"
  shows "fst (varint False wide m c) = Inl e"
proof -
  let ?bs = "map m [data c..<endp c]"
  from spec_varint_len_Inl [OF assms(2)]
  consider (short) "e = UnterminatedVarint" "list_all (\<lambda>b. b AND 0x80 \<noteq> 0) ?bs" "length ?bs < 10"
    | (long) "e = VarintTooLong" "10 \<le> length ?bs" "list_all (\<lambda>b. b AND 0x80 \<noteq> 0) (take 10 ?bs)"
    by auto
  then show ?thesis
  proof cases
    case short
    from short(2) have "\<forall>a. data c \<le> a \<and> a < endp c \<longrightarrow> m a AND 0x80 \<noteq> 0"
      by (simp add: list_all_iff)
    with short(3) assms(1)
    have "varint_loop wide m c 0x80 0 0 []
            = (Inl UnterminatedVarint, c\<lparr>data := endp c\<rparr>, [] @ [data c..<endp c])"
      by (intro varint_loop_unterminated) simp_all
    with short(1) show ?thesis
      by (simp add: varint_def)
  next
    case long
    from long(2) have "take 10 ?bs = map m [data c..<data c + 10]"
      by (simp add: take_map)
    with long(3) have "\<forall>a. data c \<le> a \<and> a < data c + 10 \<longrightarrow> m a AND 0x80 \<noteq> 0"
      by (simp add: list_all_iff)
    with long(2)
    have "varint_loop wide m c 0x80 0 0 []
            = (Inl VarintTooLong, c\<lparr>data := data c + 10\<rparr>, [] @ [data c..<data c + 10])"
      by (intro varint_loop_too_long) simp_all
    with long(1) show ?thesis
      by (simp add: varint_def)
  qed
qed

lemma varint_wire_format_value:
  assumes "data c \<le> endp c"
    and "spec_varint_len 0 (map m [data c..<endp c]) = Inr n"
  shows "\<exists>v. varint False wide m c = (Inr v, c\<lparr>data := data c + n\<rparr>, [data c..<data c + n]) \<and>
             (wide = shl_zero \<or> n \<le> 5 \<longrightarrow>
                v = (of_nat (varint_value (take n (map m [data c..<endp c]))) :: 'a::len word))"
    and "1 \<le> n" and "data c + n \<le> endp c"
proof -
  let ?bs = "map m [data c..<endp c]"
  let ?g = "take n ?bs"
  from spec_varint_len_Inr [OF assms(2)]
  have n: "1 \<le> n" "n \<le> length ?bs" "n \<le> 10"
    and cont: "list_all (\<lambda>b. b AND 0x80 \<noteq> 0) (take (n - 1) ?bs)"
    and stop: "?bs ! (n - 1) AND 0x80 = 0"
    by simp_all
  from n show "1 \<le> n" and fits: "data c + n \<le> endp c"
    by simp_all
  from n have g: "?g = map m [data c..<data c + n]"
    by (simp add: take_map)
  from n have "butlast ?g = take (n - 1) ?bs"
    by (simp add: butlast_take)
  moreover from n have "last ?g = ?bs ! (n - 1)"
    by (intro last_take_nth) simp_all
  moreover from n have "?g \<noteq> []" "length ?g \<le> 10"
    by auto
  ultimately have wf: "well_formed_varint ?g"
    using cont stop by (simp add: well_formed_varint_def)
  from n have len: "length ?g = n"
    by simp
  have dec: "varint False wide' m c
               = (Inr (of_nat (varint_value ?g) :: 'a word), c\<lparr>data := data c + n\<rparr>,
                  [data c..<data c + n])"
    if "wide' = shl_zero \<or> n \<le> 5" for wide' :: "'a word \<Rightarrow> nat \<Rightarrow> 'a word"
  proof -
    from that have "wide' = shl_zero \<or> 7 * (length ?g - 1) < max 32 LENGTH('a)"
      unfolding len by auto
    with wf g fits len
    have "varint False wide' m c
            = (Inr (of_nat (varint_value ?g) :: 'a word), c\<lparr>data := data c + length ?g\<rparr>,
               [data c..<data c + length ?g])"
      by (intro varint_decodes) simp_all
    then show ?thesis
      unfolding len .
  qed
  from dec [of shl_zero]
  have "varint_loop shl_zero m c 0x80 (0 :: 'a word) 0 []
          = (Inr (of_nat (varint_value ?g)), c\<lparr>data := data c + n\<rparr>, [data c..<data c + n])"
    by (simp add: varint_def)
  from varint_loop_shape [OF this, of wide 0]
  obtain v where "varint False wide m c = (Inr v, c\<lparr>data := data c + n\<rparr>, [data c..<data c + n])"
    by (auto simp: varint_def) (metis sum.exhaust)
  with dec [of wide]
  show "\<exists>v. varint False wide m c = (Inr v, c\<lparr>data := data c + n\<rparr>, [data c..<data c + n]) \<and>
             (wide = shl_zero \<or> n \<le> 5 \<longrightarrow> v = (of_nat (varint_value ?g) :: 'a word))"
    by auto
qed


lemma skip_wire_format:
  assumes "data c \<le> endp c"
    and "spec_skip (val c) (map m [data c..<endp c]) = (x, w)"
    and "wide = shl_zero \<or> w \<le> 5"
    and "skip False wide m c = (r, c', rd)"
  shows "case x of
           Inl e \<Rightarrow> r = Inl e
         | Inr k \<Rightarrow> r = Inr () \<and> c' = c\<lparr>data := data c + k\<rparr> \<and> data c + k \<le> endp c"
proof -
  let ?bs = "map m [data c..<endp c]"
  let ?wt = "unat (val c) mod 8"
  from assms(1) have len: "length ?bs = endp c - data c"
    by simp
  consider (varint) "?wt = 0" | (fixed64) "?wt = 1" | (delimited) "?wt = 2" | (fixed32) "?wt = 5"
    | (unknown) "?wt \<noteq> 0" "?wt \<noteq> 1" "?wt \<noteq> 2" "?wt \<noteq> 5"
    by blast
  then show ?thesis
  proof cases
    case varint
    then have run: "seq (varint False wide m c) (\<lambda>(_ :: 32 word) c1. (Inr (), c1, [])) = (r, c', rd)"
      using assms(4) by (simp add: skip_def skipValue_def wire_type_bits)
    show ?thesis
    proof (cases "spec_varint_len 0 ?bs")
      case (Inl e)
      from varint_wire_format_error [OF assms(1) Inl, of wide] run have "r = Inl e"
        by (cases "varint False wide m c :: 32 word result") (auto simp: seq_def)
      moreover from Inl varint assms(2) have "x = Inl e"
        by (simp add: spec_skip_def)
      ultimately show ?thesis
        by simp
    next
      case (Inr n)
      from varint_wire_format_value(1) [OF assms(1) Inr, of wide]
        varint_wire_format_value(3) [OF assms(1) Inr] run
      have "r = Inr ()" "c' = c\<lparr>data := data c + n\<rparr>" "data c + n \<le> endp c"
        by (auto simp: seq_def)
      moreover from Inr varint assms(2) have "x = Inr n"
        by (simp add: spec_skip_def)
      ultimately show ?thesis
        by simp
    qed
  next
    case fixed64
    then have "skipBytes c 8 = (r, c', rd)"
      using assms(4) by (simp add: skip_def skipValue_def wire_type_bits)
    moreover from fixed64 assms(2) len
    have "x = (if endp c - data c < 8 then Inl EndOfBuffer else Inr 8)"
      by (auto simp: spec_skip_def split: if_splits)
    ultimately show ?thesis
      using assms(1) by (auto simp: skipBytes_def split: if_splits)
  next
    case delimited
    then have run: "seq (varint False wide m c) (\<lambda>bytes c1. skipBytes c1 bytes) = (r, c', rd)"
      using assms(4) by (simp add: skip_def skipValue_def wire_type_bits)
    show ?thesis
    proof (cases "spec_varint_len 0 ?bs")
      case (Inl e)
      from varint_wire_format_error [OF assms(1) Inl, of wide] run have "r = Inl e"
        by (cases "varint False wide m c :: 32 word result") (auto simp: seq_def)
      moreover from Inl delimited assms(2) have "x = Inl e"
        by (simp add: spec_skip_def)
      ultimately show ?thesis
        by simp
    next
      case (Inr n)
      let ?l = "of_nat (varint_value (take n ?bs)) :: 32 word"
      from Inr delimited assms(2) have w: "w = n"
        by (auto simp: spec_skip_def Let_def split: if_splits)
      with varint_wire_format_value(1) [OF assms(1) Inr, of wide] assms(3)
      have "varint False wide m c = (Inr ?l, c\<lparr>data := data c + n\<rparr>, [data c..<data c + n])"
        by auto
      with run obtain rd' where "skipBytes (c\<lparr>data := data c + n\<rparr>) ?l = (r, c', rd')"
        by (auto simp: seq_def split: prod.splits)
      moreover from Inr delimited assms(2) len
      have "x = (if endp c - data c < n + unat ?l then Inl EndOfBuffer else Inr (n + unat ?l))"
        by (auto simp: spec_skip_def Let_def split: if_splits)
      ultimately show ?thesis
        using assms(1) varint_wire_format_value(3) [OF assms(1) Inr]
        by (auto simp: skipBytes_def split: if_splits)
    qed
  next
    case fixed32
    then have "skipBytes c 4 = (r, c', rd)"
      using assms(4) by (simp add: skip_def skipValue_def wire_type_bits)
    moreover from fixed32 assms(2) len
    have "x = (if endp c - data c < 4 then Inl EndOfBuffer else Inr 4)"
      by (auto simp: spec_skip_def split: if_splits)
    ultimately show ?thesis
      using assms(1) by (auto simp: skipBytes_def split: if_splits)
  next
    case unknown
    then have "r = Inl UnknownFieldType"
      using assms(4) by (simp add: skip_def skipValue_def wire_type_bits)
    moreover from unknown assms(2) have "x = Inl UnknownFieldType"
      by (simp add: spec_skip_def)
    ultimately show ?thesis
      by simp
  qed
qed


lemma next_tag_wire_format:
  assumes "data c \<le> endp c"
    and "spec_next_tag t (map m [data c..<endp c]) = (out, w)"
    and "wide = shl_zero \<or> w \<le> 5"
    and "next_tag False wide m c t = (r, c', rd)"
  shows "endp c' = endp c \<and>
         (case out of
            Inl e \<Rightarrow> r = Inl e
          | Inr NoMoreFields \<Rightarrow> r = Inr False \<and> data c' = endp c
          | Inr (Positioned key rest) \<Rightarrow>
              r = Inr True \<and> val c' = key \<and> tag c' = t \<and> map m [data c'..<endp c] = rest)"
  using assms
proof (induction "endp c - data c" arbitrary: c out w r c' rd rule: less_induct)
  case less
  let ?bs = "map m [data c..<endp c]"
  from next_tag_frame [OF less.prems(4,1)] have frame: "endp c' = endp c"
    by simp
  show ?case
  proof (cases "data c < endp c")
    case False
    with less.prems(1) have "?bs = []"
      by simp
    with less.prems(2) have "out = Inr NoMoreFields"
      by (simp add: spec_next_tag.simps [of t "[]"])
    moreover from False less.prems(4) have "r = Inr False" "c' = c"
      by (simp_all add: next_tag.simps [of False wide m c] next_field_def)
    ultimately show ?thesis
      using False less.prems(1) by simp
  next
    case True
    then have nonempty: "?bs \<noteq> []"
      by simp
    from True have nf: "next_field False wide m c
        = seq (varint False wide m c) (\<lambda>v c1. (Inr True, c1\<lparr>val := v, tag := drop_bit 3 v\<rparr>, []))"
      by (simp add: next_field_def)
    show ?thesis
    proof (cases "spec_varint_len 0 ?bs")
      case (Inl e)
      with nonempty less.prems(2) have "out = Inl e"
        by (simp add: spec_next_tag.simps [of t ?bs])
      moreover from varint_wire_format_error [OF less.prems(1) Inl, of wide] less.prems(4)
      have "r = Inl e"
        by (cases "varint False wide m c :: 32 word result")
          (auto simp: next_tag.simps [of False wide m c] nf seq_def)
      ultimately show ?thesis
        using frame by simp
    next
      case (Inr n)
      let ?key = "of_nat (varint_value (take n ?bs)) :: 32 word"
      let ?rest = "drop n ?bs"
      let ?c2 = "c\<lparr>data := data c + n, val := ?key, tag := drop_bit 3 ?key\<rparr>"
      note n = varint_wire_format_value(2,3) [OF less.prems(1) Inr]
      have rest: "?rest = map m [data ?c2..<endp ?c2]"
        by (simp add: drop_map)
      have "spec_next_tag t ?bs =
              (if drop_bit 3 ?key = t then (Inr (Positioned ?key ?rest), n)
               else (case spec_skip ?key ?rest of
                       (Inl e, w) \<Rightarrow> (Inl e, max n w)
                     | (Inr k, w) \<Rightarrow>
                         (case spec_next_tag t (drop k ?rest) of
                            (r, w') \<Rightarrow> (r, max n (max w w')))))"
        using nonempty Inr by (subst spec_next_tag.simps) (simp add: Let_def)
      with less.prems(2) have spec:
        "(if drop_bit 3 ?key = t then (Inr (Positioned ?key ?rest), n)
          else (case spec_skip ?key ?rest of
                  (Inl e, w) \<Rightarrow> (Inl e, max n w)
                | (Inr k, w) \<Rightarrow>
                    (case spec_next_tag t (drop k ?rest) of
                       (r, w') \<Rightarrow> (r, max n (max w w'))))) = (out, w)"
        by simp
      then have "n \<le> w"
        by (auto split: if_splits prod.splits sum.splits)
      with less.prems(3) have "wide = shl_zero \<or> n \<le> 5"
        by auto
      with varint_wire_format_value(1) [OF less.prems(1) Inr, of wide]
      have "varint False wide m c = (Inr ?key, c\<lparr>data := data c + n\<rparr>, [data c..<data c + n])"
        by auto
      then have field: "next_field False wide m c = (Inr True, ?c2, [data c..<data c + n])"
        by (simp add: nf seq_def)
      show ?thesis
      proof (cases "drop_bit 3 ?key = t")
        case True
        with spec have "out = Inr (Positioned ?key ?rest)"
          by auto
        moreover from True field less.prems(4) have "r = Inr True" "c' = ?c2"
          by (simp_all add: next_tag.simps [of False wide m c])
        ultimately show ?thesis
          using True rest by simp
      next
        case False
        obtain x ws where sk: "spec_skip ?key ?rest = (x, ws)"
          by (cases "spec_skip ?key ?rest") auto
        obtain r2 c3 rd2 where run2: "skip False wide m ?c2 = (r2, c3, rd2)"
          by (cases "skip False wide m ?c2") auto
        from n have le2: "data ?c2 \<le> endp ?c2"
          by simp
        from sk rest have sk': "spec_skip (val ?c2) (map m [data ?c2..<endp ?c2]) = (x, ws)"
          by simp
        show ?thesis
        proof (cases x)
          case (Inl e)
          with False sk spec have "out = Inl e" "ws \<le> w"
            by auto
          with less.prems(3) have "wide = shl_zero \<or> ws \<le> 5"
            by auto
          from skip_wire_format [OF le2 sk' this run2] Inl have "r2 = Inl e"
            by simp
          with False field run2 less.prems(4) have "r = Inl e"
            by (simp add: next_tag.simps [of False wide m c])
          with \<open>out = Inl e\<close> frame show ?thesis
            by simp
        next
          case (Inr k)
          obtain out' w' where rec: "spec_next_tag t (drop k ?rest) = (out', w')"
            by (cases "spec_next_tag t (drop k ?rest)") auto
          with False sk Inr spec
          have out: "out = out'" and "ws \<le> w" "w' \<le> w"
            by auto
          with less.prems(3) have ok: "wide = shl_zero \<or> ws \<le> 5" "wide = shl_zero \<or> w' \<le> 5"
            by auto
          from skip_wire_format [OF le2 sk' ok(1) run2] Inr
          have r2: "r2 = Inr ()" and c3: "c3 = ?c2\<lparr>data := data ?c2 + k\<rparr>"
            and le3: "data ?c2 + k \<le> endp ?c2"
            by simp_all
          obtain r3 c4 rd3 where run3: "next_tag False wide m c3 t = (r3, c4, rd3)"
            by (cases "next_tag False wide m c3 t") auto
          with False field run2 r2 less.prems(4) have "r = r3" "c' = c4"
            by (simp_all add: next_tag.simps [of False wide m c])
          from c3 have "drop k ?rest = map m [data c3..<endp c3]"
            by (simp add: drop_map)
          with rec have rec': "spec_next_tag t (map m [data c3..<endp c3]) = (out', w')"
            by simp
          from c3 le3 n have "endp c3 - data c3 < endp c - data c" "data c3 \<le> endp c3"
            by simp_all
          moreover from c3 have e3: "endp c3 = endp c"
            by simp
          ultimately have "case out' of
                  Inl e \<Rightarrow> r3 = Inl e
                | Inr NoMoreFields \<Rightarrow> r3 = Inr False \<and> data c4 = endp c
                | Inr (Positioned key rest) \<Rightarrow>
                    r3 = Inr True \<and> val c4 = key \<and> tag c4 = t \<and> map m [data c4..<endp c] = rest"
            using less.hyps [OF _ _ rec' ok(2) run3, unfolded e3] by simp
          with frame show ?thesis
            unfolding out \<open>r = r3\<close> \<open>c' = c4\<close> by simp
        qed
      qed
    qed
  qed
qed

text \<open>The specification's advance on the buffer of C7, and on one without the tag.\<close>

lemma spec_next_tag_examples:
  "spec_next_tag 5 [0x0D, 0x00, 0x00, 0x80, 0x3F, 0x28, 0x02] = (Inr (Positioned 0x28 [0x02]), 1)"
  "spec_next_tag 5 [0x08, 0x96, 0x01, 0x3A, 0x02, 0x61, 0x62] = (Inr NoMoreFields, 1)"
  "spec_next_tag 5 [0x08, 0x96, 0x01, 0x3A, 0x03, 0x61, 0x62] = (Inl EndOfBuffer, 1)"
  "spec_next_tag 5 [0x0B, 0x01] = (Inl UnknownFieldType, 1)"
  by (simp_all add: spec_next_tag.simps spec_skip_def Let_def)

subsection \<open>Reads at the end of the buffer\<close>

text \<open>
  Every member stays within the buffer when it starts from a cursor with \<open>data \<le> end\<close>,
  whether it returns or fails, with one exception: \<open>boolean\<close> with assertions compiled
  in, on a cursor that has no byte left.
\<close>

lemma withinI:
  assumes "\<And>r c' rd. res = (r, c', rd) \<Longrightarrow>
             data c \<le> data c' \<and> data c' \<le> endp c \<and> endp c' = endp c \<and> set rd \<subseteq> {data c..<data c'}"
  shows "within c res"
proof (cases res)
  case (fields r c' rd)
  from assms [OF this] fields show ?thesis
    by (auto simp: within_def)
qed

lemma within_varint:
  assumes "data c \<le> endp c"
  shows "within c (varint chk wide m c)"
proof (rule withinI)
  fix r c' rd assume "varint chk wide m c = (r, c', rd)"
  from varint_frame [OF this] assms
  show "data c \<le> data c' \<and> data c' \<le> endp c \<and> endp c' = endp c \<and> set rd \<subseteq> {data c..<data c'}"
    by simp
qed

lemma within_svarint:
  assumes "data c \<le> endp c"
  shows "within c (svarint s chk wide m c)"
proof (rule withinI)
  fix r c' rd assume "svarint s chk wide m c = (r, c', rd)"
  then have "seq (varint chk wide m c) (\<lambda>n c'. (Inr (shr s n 1 XOR - (n AND 1)), c', [])) = (r, c', rd)"
    by (simp add: svarint_def)
  then show "data c \<le> data c' \<and> data c' \<le> endp c \<and> endp c' = endp c \<and> set rd \<subseteq> {data c..<data c'}"
  proof (cases rule: seq_cases)
    case (fail e)
    from varint_frame [OF fail(1)] assms show ?thesis by simp
  next
    case (ok y c1 rd1 rd2)
    from varint_frame [OF ok(1)] ok(2,3) assms show ?thesis by auto
  qed
qed

lemma within_skipBytes:
  assumes "data c \<le> endp c"
  shows "within c (skipBytes c n)"
  using assms by (simp add: within_def skipBytes_def)

lemma skipValue_reads:
  assumes "skipValue chk wide m c v = (r, c', rd)"
  shows "set rd \<subseteq> {data c..<data c'}"
proof -
  from skipValue_frame [OF assms] have eq: "rd = [data c..<length rd + data c]"
    and le: "length rd + data c \<le> data c'"
    by simp_all
  from eq have "set rd = {data c..<length rd + data c}"
    by (metis set_upt)
  with le show ?thesis by auto
qed

lemma within_skipValue:
  assumes "data c \<le> endp c"
  shows "within c (skipValue chk wide m c v)"
proof (rule withinI)
  fix r c' rd assume *: "skipValue chk wide m c v = (r, c', rd)"
  from skipValue_frame [OF *] skipValue_reads [OF *] assms
  show "data c \<le> data c' \<and> data c' \<le> endp c \<and> endp c' = endp c \<and> set rd \<subseteq> {data c..<data c'}"
    by simp
qed

lemma within_skip:
  assumes "data c \<le> endp c"
  shows "within c (skip chk wide m c)"
  using within_skipValue [OF assms] by (simp add: skip_def)

lemma within_next_field:
  assumes "data c \<le> endp c"
  shows "within c (next_field chk wide m c)"
proof (rule withinI)
  fix r c' rd assume "next_field chk wide m c = (r, c', rd)"
  from next_field_frame [OF this] assms
  show "data c \<le> data c' \<and> data c' \<le> endp c \<and> endp c' = endp c \<and> set rd \<subseteq> {data c..<data c'}"
    by simp
qed

lemma within_next_tag:
  assumes "data c \<le> endp c"
  shows "within c (next_tag chk wide m c t)"
proof (rule withinI)
  fix r c' rd assume "next_tag chk wide m c t = (r, c', rd)"
  from next_tag_frame [OF this assms]
  show "data c \<le> data c' \<and> data c' \<le> endp c \<and> endp c' = endp c \<and> set rd \<subseteq> {data c..<data c'}"
    by simp
qed

lemma within_fixed:
  assumes "data c \<le> endp c" and "bytes < 2 ^ 32"
  shows "within c (fixed bytes chk m c :: 'a::len word result)"
proof -
  from assms(2) have "unat (of_nat bytes :: 32 word) = bytes"
    by (simp add: unat_of_nat)
  with assms(1) show ?thesis
    by (auto simp: within_def fixed_def seq_def skipBytes_def)
qed

lemma within_float32:
  assumes "data c \<le> endp c"
  shows "within c (float32 chk m c)"
  using within_fixed [where 'a = 32, OF assms, of 4 chk m] assms by (simp add: float32_def within_def)

lemma within_float64:
  assumes "data c \<le> endp c"
  shows "within c (float64 chk m c)"
  using within_fixed [where 'a = 64, OF assms, of 8 chk m] assms by (simp add: float64_def within_def)

lemma within_length_delimited:
  assumes "data c \<le> endp c"
    and "seq (varint chk wide m c)
           (\<lambda>bytes c1. seq (skipBytes c1 bytes) (\<lambda>_ c2. (Inr (f (data c1) bytes), c2, g (data c1) (unat bytes))))
         = (r, c', rd)"
    and "\<And>pos n. set (g pos n) \<subseteq> {pos..<pos + n}"
  shows "data c \<le> data c' \<and> data c' \<le> endp c \<and> endp c' = endp c \<and> set rd \<subseteq> {data c..<data c'}"
  using assms(2)
proof (cases rule: seq_cases)
  case (fail e)
  from varint_frame [OF fail(1)] assms(1) show ?thesis by simp
next
  case (ok bytes c1 rd1 rd2)
  note v = varint_frame [OF ok(1)]
  from ok(2) show ?thesis
  proof (cases rule: seq_cases)
    case (fail e)
    from skipBytes_frame [OF fail(1)] v ok(3) assms(1) show ?thesis by auto
  next
    case (ok u c2 rd3 rd4)
    from ok(1) have "data c2 = data c1 + unat bytes"
      by (auto simp: skipBytes_def split: if_splits)
    with skipBytes_frame [OF ok(1)] v \<open>rd = rd1 @ rd2\<close> ok(2,3) assms(1) assms(3) [of "data c1" "unat bytes"]
    show ?thesis by auto
  qed
qed

lemma within_string_field:
  assumes "data c \<le> endp c"
  shows "within c (string_field chk wide m c)"
proof (cases "chk \<and> \<not> is_wire_type c 2")
  case True
  with assms show ?thesis by (simp add: string_field_def within_def)
next
  case False
  show ?thesis
  proof (rule withinI)
    fix r c' rd assume "string_field chk wide m c = (r, c', rd)"
    with False have
      "seq (varint chk wide m c)
         (\<lambda>bytes c1. seq (skipBytes c1 bytes)
            (\<lambda>_ c2. (Inr ((\<lambda>pos bytes. map m [pos..<pos + unat bytes]) (data c1) bytes), c2,
                      (\<lambda>pos n. [pos..<pos + n]) (data c1) (unat bytes))))
       = (r, c', rd)"
      by (auto simp: string_field_def Let_def)
    from within_length_delimited [OF assms this]
    show "data c \<le> data c' \<and> data c' \<le> endp c \<and> endp c' = endp c \<and> set rd \<subseteq> {data c..<data c'}"
      by simp
  qed
qed

lemma within_message:
  assumes "data c \<le> endp c"
  shows "within c (message chk wide m c)"
proof (cases "chk \<and> \<not> is_wire_type c 2")
  case True
  with assms show ?thesis by (simp add: message_def within_def)
next
  case False
  show ?thesis
  proof (rule withinI)
    fix r c' rd assume "message chk wide m c = (r, c', rd)"
    with False have
      "seq (varint chk wide m c)
         (\<lambda>bytes c1. seq (skipBytes c1 bytes)
            (\<lambda>_ c2. (Inr ((\<lambda>pos bytes. new_pbf pos (unat bytes)) (data c1) bytes), c2,
                      (\<lambda>pos n. []) (data c1) (unat bytes))))
       = (r, c', rd)"
      by (auto simp: message_def Let_def)
    from within_length_delimited [OF assms this]
    show "data c \<le> data c' \<and> data c' \<le> endp c \<and> endp c' = endp c \<and> set rd \<subseteq> {data c..<data c'}"
      by simp
  qed
qed

lemma within_boolean:
  assumes "data c \<le> endp c" and "chk \<longrightarrow> data c < endp c"
  shows "within c (boolean chk m c)"
  using assms by (auto simp: within_def boolean_def seq_def skipBytes_def)

lemma message_sub_cursor:
  assumes "data c \<le> endp c" and "message chk wide m c = (Inr sub, c', rd)"
  shows "data c \<le> data sub \<and> data sub \<le> endp sub \<and> endp sub = data c' \<and> data c' \<le> endp c"
proof -
  from assms(2) have
    "seq (varint chk wide m c)
       (\<lambda>bytes c1. seq (skipBytes c1 bytes) (\<lambda>_ c2. (Inr (new_pbf (data c1) (unat bytes)), c2, [])))
     = (Inr sub, c', rd)"
    by (auto simp: message_def Let_def split: if_splits)
  then show ?thesis
  proof (cases rule: seq_cases)
    case (ok bytes c1 rd1 rd2)
    note v = varint_frame [OF ok(1)]
    from ok(2) show ?thesis
    proof (cases rule: seq_cases)
      case (ok u c2 rd3 rd4)
      from ok(1) have "data c2 = data c1 + unat bytes" "data c2 \<le> endp c1"
        by (auto simp: skipBytes_def split: if_splits)
      with ok(2) v assms(1) show ?thesis
        by (auto simp: new_pbf_def)
    qed simp
  qed simp
qed

lemma members_stay_within:
  assumes "data c \<le> endp c"
  shows "within c (next_field chk wide m c)"
    and "within c (next_tag chk wide m c t)"
    and "within c (varint chk wideT m c)"
    and "within c (svarint s chk wideT m c)"
    and "within c (float32 chk m c)"
    and "within c (float64 chk m c)"
    and "within c (string_field chk wide m c)"
    and "within c (boolean False m c)"
    and "data c < endp c \<Longrightarrow> within c (boolean True m c)"
    and "within c (message chk wide m c)"
    and "within c (skip chk wide m c)"
    and "within c (skipValue chk wide m c v)"
    and "within c (skipBytes c n)"
  using assms
  by (simp_all add: within_next_field within_next_tag within_varint within_svarint within_float32
      within_float64 within_string_field within_boolean within_message within_skip
      within_skipValue within_skipBytes)

text \<open>
  Claim C2 (fails on the code).  On the one-byte buffer \<open>[0x08]\<close> (the key of field 1,
  wire type 0, its value cut off) \<open>next\<close> succeeds and leaves \<open>data = end\<close>.  With
  assertions compiled in, \<open>boolean\<close> then evaluates \<^verbatim>\<open>*data\<close> in its second assertion:
  a read at address 1, which is \<open>end\<close>, before \<^verbatim>\<open>skipBytes(1)\<close> reports \<open>EndOfBuffer\<close>.
\<close>

theorem boolean_reads_at_end:
  "next_field True shl_masked (mem_of [0x08]) (new_pbf 0 1)
     = (Inr True, \<lparr>data = 1, endp = 1, val = 0x08, tag = 1\<rparr>, [0]) \<and>
   is_wire_type \<lparr>data = 1, endp = 1, val = 0x08, tag = 1\<rparr> 0 \<and>
   boolean True (mem_of [0x08]) \<lparr>data = 1, endp = 1, val = 0x08, tag = 1\<rparr>
     = (Inl EndOfBuffer, \<lparr>data = 1, endp = 1, val = 0x08, tag = 1\<rparr>, [1]) \<and>
   \<not> within \<lparr>data = 1, endp = 1, val = 0x08, tag = 1\<rparr>
       (boolean True (mem_of [0x08]) \<lparr>data = 1, endp = 1, val = 0x08, tag = 1\<rparr>)"
  by (simp add: next_field_def boolean_def skipBytes_def seq_def varint_def within_def
      varint_loop.simps mem_of_def new_pbf_def shl_def is_wire_type_def wire_type_def)

subsection \<open>Booleans\<close>




subsection \<open>The assertion of varint inside next\<close>

text \<open>
  Claim C10 (fails on the code).  The buffer holds field 1 as a 32-bit fixed value (the
  float \<open>1.0\<close>) and field 1 as the varint 1.  \<open>next\<close> decodes the first key, \<open>float32\<close>
  reads the value as its precondition allows, and the second \<open>next\<close> calls \<open>varint\<close>
  while \<open>val\<close> still holds the key of the fixed field: the assertion that the wire type
  is 0 or 2 fails.  With assertions compiled out the same call decodes the second key.
\<close>

theorem next_after_fixed_fails_assertion:
  "next_field True shl_masked (mem_of [0x0D, 0x00, 0x00, 0x80, 0x3F, 0x08, 0x01]) (new_pbf 0 7)
     = (Inr True, \<lparr>data = 1, endp = 7, val = 0x0D, tag = 1\<rparr>, [0]) \<and>
   is_wire_type \<lparr>data = 1, endp = 7, val = 0x0D, tag = 1\<rparr> 5 \<and>
   float32 True (mem_of [0x0D, 0x00, 0x00, 0x80, 0x3F, 0x08, 0x01]) \<lparr>data = 1, endp = 7, val = 0x0D, tag = 1\<rparr>
     = (Inr 0x3F800000, \<lparr>data = 5, endp = 7, val = 0x0D, tag = 1\<rparr>, [1, 2, 3, 4]) \<and>
   next_field True shl_masked (mem_of [0x0D, 0x00, 0x00, 0x80, 0x3F, 0x08, 0x01]) \<lparr>data = 5, endp = 7, val = 0x0D, tag = 1\<rparr>
     = (Inl AssertionFailure, \<lparr>data = 5, endp = 7, val = 0x0D, tag = 1\<rparr>, []) \<and>
   next_field False shl_masked (mem_of [0x0D, 0x00, 0x00, 0x80, 0x3F, 0x08, 0x01]) \<lparr>data = 5, endp = 7, val = 0x0D, tag = 1\<rparr>
     = (Inr True, \<lparr>data = 6, endp = 7, val = 0x08, tag = 1\<rparr>, [5])"
  by (simp add: next_field_def float32_def fixed_def skipBytes_def seq_def varint_def
      varint_loop.simps mem_of_def new_pbf_def shl_def is_wire_type_def wire_type_def
      upt_rec word_rcat_def)


end
